theory Spec2Isabelle
  imports Main "HOL-Library.AList"
begin

section \<open>Decoded documents\<close>

text \<open>
  The build configuration is decoded from \<^verbatim>\<open>builds.yml\<close> into a generic tree of JavaScript
  values. An object is the list of its own enumerable properties in enumeration order; a
  list that denotes an object has pairwise distinct keys. Numbers are never inspected by the
  schema, so their representation is a type parameter. Objects are plain data: no own
  property shadows a method that JavaScript calls implicitly (such as \<^verbatim>\<open>toString\<close>), so
  that rendering a value into a message never throws.
\<close>

datatype 'n jsval =
    JUndefined
  | JNull
  | JBool bool
  | JNum 'n
  | JStr string
  | JArr "'n jsval list"
  | JObj "(string \<times> 'n jsval) list"

definition is_string :: "'n jsval \<Rightarrow> bool" where
  "is_string v = (case v of JStr _ \<Rightarrow> True | _ \<Rightarrow> False)"

definition is_boolean :: "'n jsval \<Rightarrow> bool" where
  "is_boolean v = (case v of JBool _ \<Rightarrow> True | _ \<Rightarrow> False)"

definition is_array :: "'n jsval \<Rightarrow> bool" where
  "is_array v = (case v of JArr _ \<Rightarrow> True | _ \<Rightarrow> False)"

text \<open>\<^verbatim>\<open>typeof x === 'object' && x != null\<close>: arrays are objects too.\<close>

definition is_object :: "'n jsval \<Rightarrow> bool" where
  "is_object v = (case v of JObj _ \<Rightarrow> True | JArr _ \<Rightarrow> True | _ \<Rightarrow> False)"

definition digit :: "nat \<Rightarrow> char" where
  "digit d = char_of (48 + d)"

function decimal :: "nat \<Rightarrow> string" where
  "decimal n = (if n < 10 then [digit n] else decimal (n div 10) @ [digit (n mod 10)])"
  by pat_completeness auto
termination
  by (relation "measure id") auto

text \<open>The own enumerable keys of an object or array, in enumeration order.\<close>

definition own_keys :: "'n jsval \<Rightarrow> string list" where
  "own_keys v = (case v of
       JObj kvs \<Rightarrow> map fst kvs
     | JArr xs \<Rightarrow> map decimal [0..<length xs]
     | _ \<Rightarrow> [])"

definition own_props :: "'n jsval \<Rightarrow> (string \<times> 'n jsval) list" where
  "own_props v = (case v of
       JObj kvs \<Rightarrow> kvs
     | JArr xs \<Rightarrow> zip (map decimal [0..<length xs]) xs
     | _ \<Rightarrow> [])"

text \<open>
  \<^verbatim>\<open>value[key]\<close> for a value that is not null or undefined. A missing property reads as
  undefined. The properties that primitives and arrays inherit (\<^verbatim>\<open>length\<close> and the
  like) are not modelled: the program only reads the names of its schema.
\<close>

definition get_prop :: "'n jsval \<Rightarrow> string \<Rightarrow> 'n jsval" where
  "get_prop v k = (case map_of (own_props v) k of Some x \<Rightarrow> x | None \<Rightarrow> JUndefined)"

text \<open>\<^verbatim>\<open>value.key\<close> in user code: a TypeError (\<open>None\<close>) on null and undefined.\<close>

definition get_member :: "'n jsval \<Rightarrow> string \<Rightarrow> 'n jsval option" where
  "get_member v k = (case v of JUndefined \<Rightarrow> None | JNull \<Rightarrow> None | _ \<Rightarrow> Some (get_prop v k))"

text \<open>\<^verbatim>\<open>Object.keys(value)\<close> and \<^verbatim>\<open>Object.values(value)\<close>: a TypeError on null and undefined.\<close>

definition char_values :: "string \<Rightarrow> 'n jsval list" where
  "char_values s = map (\<lambda>c. JStr [c]) s"

definition object_keys :: "'n jsval \<Rightarrow> string list option" where
  "object_keys v = (case v of
       JUndefined \<Rightarrow> None
     | JNull \<Rightarrow> None
     | JStr s \<Rightarrow> Some (map decimal [0..<length s])
     | _ \<Rightarrow> Some (own_keys v))"

definition object_values :: "'n jsval \<Rightarrow> 'n jsval list option" where
  "object_values v = (case v of
       JUndefined \<Rightarrow> None
     | JNull \<Rightarrow> None
     | JStr s \<Rightarrow> Some (char_values s)
     | _ \<Rightarrow> Some (map snd (own_props v)))"

text \<open>\<^verbatim>\<open>{ ...value }\<close> for an object or array.\<close>

definition object_spread :: "'n jsval \<Rightarrow> 'n jsval" where
  "object_spread v = JObj (own_props v)"

text \<open>The values a \<^verbatim>\<open>for ... of\<close> loop visits; a TypeError when the value is not iterable.\<close>

definition iterate :: "'n jsval \<Rightarrow> 'n jsval list option" where
  "iterate v = (case v of JArr xs \<Rightarrow> Some xs | JStr s \<Rightarrow> Some (char_values s) | _ \<Rightarrow> None)"

text \<open>
  \<^verbatim>\<open>===\<close> and the SameValueZero comparison of \<^verbatim>\<open>Set\<close> and \<^verbatim>\<open>includes\<close>. Primitives
  compare by value. Objects compare by identity, which the tree does not record: two
  objects are taken to be different ones.
\<close>

definition strict_equals :: "'n jsval \<Rightarrow> 'n jsval \<Rightarrow> bool" where
  "strict_equals a b = (\<not> is_object a \<and> a = b)"

datatype pkey = Field string | Index nat

definition key_index :: "'n jsval list \<Rightarrow> string \<Rightarrow> nat option" where
  "key_index xs k = map_of (zip (map decimal [0..<length xs]) [0..<length xs]) k"

text \<open>
  The write-back of a coerced entry,
  \<^verbatim>\<open>if (v !== undefined || k in value) value[k] = v\<close>, for an object or array \<open>value\<close>.
\<close>

definition set_prop :: "'n jsval \<Rightarrow> pkey \<Rightarrow> 'n jsval \<Rightarrow> 'n jsval" where
  "set_prop value k v = (case value of
       JObj kvs \<Rightarrow>
         (let name = (case k of Field f \<Rightarrow> f | Index i \<Rightarrow> decimal i)
          in if v \<noteq> JUndefined \<or> name \<in> set (map fst kvs)
             then JObj (AList.update name v kvs) else value)
     | JArr xs \<Rightarrow>
         (case k of
            Index i \<Rightarrow> JArr (xs[i := v])
          | Field f \<Rightarrow> (case key_index xs f of Some i \<Rightarrow> JArr (xs[i := v]) | None \<Rightarrow> value))
     | _ \<Rightarrow> value)"

section \<open>The validation library\<close>

text \<open>
  The schema is written with the combinators of the superstruct library (version 1.0). A
  struct is its four functions: the coercer, the validator, the entries it descends into
  and the refiner. A failure carries its message, the path of the offending value and the
  name of the refinement that produced it, if any.

  A message is either the text a refinement of the program returns, or a built-in message
  \<open>Expected what v\<close> (``Expected \<open>what\<close>, but received: \<open>v\<close>'') whose rendering of the
  received value is left symbolic, or \<open>Template pre v post\<close>, a template literal around a
  value whose rendering involves numbers.
\<close>

datatype 'n message =
    Text string
  | Expected string "'n jsval"
  | Template string "'n jsval" string

datatype 'n failure = Failure (message: "'n message") (path: "pkey list") (refinement: "string option")

datatype status = Valid | NotRefined | NotValid

text \<open>
  A coercer or validator that throws gives \<open>None\<close>. A refiner is a generator: it yields
  failures and then either returns or throws (\<open>True\<close>).
\<close>

datatype 'n struct = Struct
  (stype: string)
  (coercer: "'n jsval \<Rightarrow> 'n jsval option")
  (validator: "'n jsval \<Rightarrow> pkey list \<Rightarrow> 'n failure list option")
  (entries: "'n jsval \<Rightarrow> (pkey \<times> 'n jsval \<times> 'n struct) list")
  (refiner: "'n jsval \<Rightarrow> pkey list \<Rightarrow> 'n failure list \<times> bool")

text \<open>
  What the generator \<^verbatim>\<open>run\<close> does: the failures it yields, in order, and how it ends.
  \<open>None\<close> is an exception thrown after these failures; \<open>Some (st, v)\<close> is a normal end
  with status \<open>st\<close> and the (coerced) value \<open>v\<close>, which is yielded as the result exactly when
  the status is \<open>Valid\<close>, that is, when no failure was yielded.
\<close>

type_synonym 'n trace = "'n failure list \<times> (status \<times> 'n jsval) option"

text \<open>
  The loop of \<^verbatim>\<open>run\<close> over the entries of a value. Each entry is run with the path
  extended by its key. A failing entry sets the status from its last failure (a later
  refinement failure replaces an earlier \<open>NotValid\<close>); a successful one is written back
  into the value when coercing.
\<close>

fun run_entries ::
  "bool \<Rightarrow> pkey list \<Rightarrow> (pkey \<times> 'n jsval \<times> (bool \<Rightarrow> pkey list \<Rightarrow> 'n jsval \<Rightarrow> 'n trace)) list
    \<Rightarrow> status \<Rightarrow> 'n jsval \<Rightarrow> 'n trace" where
  "run_entries c p [] st value = ([], Some (st, value))"
| "run_entries c p ((k, v, r) # es) st value =
     (case r c (p @ [k]) v of
        (fs, None) \<Rightarrow> (fs, None)
      | (fs, Some (_, v')) \<Rightarrow>
          (let st' = (if fs = [] then st
                      else if refinement (last fs) \<noteq> None then NotRefined else NotValid);
               value' = (if fs = [] \<and> c then set_prop value k v' else value)
           in case run_entries c p es st' value' of (fs2, fin) \<Rightarrow> (fs @ fs2, fin)))"

primrec run :: "'n struct \<Rightarrow> bool \<Rightarrow> pkey list \<Rightarrow> 'n jsval \<Rightarrow> 'n trace" where
  "run (Struct t co va en re) = (\<lambda>c p v0.
     case (if c then co v0 else Some v0) of
       None \<Rightarrow> ([], None)
     | Some v1 \<Rightarrow>
        (case va v1 p of
           None \<Rightarrow> ([], None)
         | Some vf \<Rightarrow>
            (case run_entries c p (map (map_prod id (map_prod id run)) (en v1))
                    (if vf = [] then Valid else NotValid) v1 of
               (ef, None) \<Rightarrow> (vf @ ef, None)
             | (ef, Some (st, v2)) \<Rightarrow>
                 if st = NotValid then (vf @ ef, Some (st, v2))
                 else (case re v2 p of (rf, threw) \<Rightarrow>
                         if threw then (vf @ ef @ rf, None)
                         else (vf @ ef @ rf, Some (if rf = [] then st else NotRefined, v2))))))"

text \<open>
  \<^verbatim>\<open>validate(value, struct, { coerce })\<close> looks at the first thing \<^verbatim>\<open>run\<close> yields. It
  throws only if \<^verbatim>\<open>run\<close> throws before yielding anything. On failure it returns an error
  whose \<^verbatim>\<open>failures()\<close> enumerates the failures; \<open>VError fs threw\<close> records them and whether
  that enumeration ends in an exception.
\<close>

datatype 'n validation = VOk "'n jsval" | VError "'n failure list" bool | VThrew

definition validate :: "'n jsval \<Rightarrow> 'n struct \<Rightarrow> bool \<Rightarrow> 'n validation" where
  "validate value struct c = (case run struct c [] value of
       ([], None) \<Rightarrow> VThrew
     | ([], Some (_, v)) \<Rightarrow> VOk v
     | (f # fs, fin) \<Rightarrow> VError (f # fs) (fin = None))"

definition is_s :: "'n jsval \<Rightarrow> 'n struct \<Rightarrow> bool option" where
  "is_s value struct = (case validate value struct False of
       VOk _ \<Rightarrow> Some True | VError _ _ \<Rightarrow> Some False | VThrew \<Rightarrow> None)"

definition no_coercer :: "'n jsval \<Rightarrow> 'n jsval option" where
  "no_coercer v = Some v"

definition no_entries :: "'n jsval \<Rightarrow> (pkey \<times> 'n jsval \<times> 'n struct) list" where
  "no_entries v = []"

definition no_refiner :: "'n jsval \<Rightarrow> pkey list \<Rightarrow> 'n failure list \<times> bool" where
  "no_refiner v p = ([], False)"

text \<open>\<^verbatim>\<open>define(name, validator)\<close> for a validator that returns a boolean or a message.\<close>

definition define_s :: "string \<Rightarrow> ('n jsval \<Rightarrow> 'n message option) \<Rightarrow> 'n struct" where
  "define_s name check = Struct name no_coercer
     (\<lambda>v p. Some (case check v of None \<Rightarrow> [] | Some m \<Rightarrow> [Failure m p None]))
     no_entries no_refiner"

definition expected_type :: "string \<Rightarrow> 'n jsval \<Rightarrow> 'n message" where
  "expected_type name v = Expected (''a value of type `'' @ name @ ''`'') v"

definition string_s :: "'n struct" where
  "string_s = define_s ''string''
     (\<lambda>v. if is_string v then None else Some (Expected ''a string'' v))"

definition boolean_s :: "'n struct" where
  "boolean_s = define_s ''boolean''
     (\<lambda>v. if is_boolean v then None else Some (expected_type ''boolean'' v))"

definition any_s :: "'n struct" where
  "any_s = define_s ''any'' (\<lambda>v. None)"

definition unknown_s :: "'n struct" where
  "unknown_s = define_s ''unknown'' (\<lambda>v. None)"

definition never_s :: "'n struct" where
  "never_s = define_s ''never'' (\<lambda>v. Some (expected_type ''never'' v))"

text \<open>\<^verbatim>\<open>literal(false)\<close> and \<^verbatim>\<open>literal(true)\<close>.\<close>

definition literal_s :: "bool \<Rightarrow> 'n struct" where
  "literal_s constant = Struct ''literal'' no_coercer
     (\<lambda>v p. Some (if v = JBool constant then []
        else [Failure (Expected (''the literal `'' @ (if constant then ''true'' else ''false'') @ ''`'') v)
                p None]))
     no_entries no_refiner"

definition object_s :: "(string \<times> 'n struct) list \<Rightarrow> 'n struct" where
  "object_s schema = Struct ''object''
     (\<lambda>v. Some (if is_object v then object_spread v else v))
     (\<lambda>v p. Some (if is_object v then [] else [Failure (Expected ''an object'' v) p None]))
     (\<lambda>v. if is_object v
           then map (\<lambda>(k, s). (Field k, get_prop v k, s)) schema
              @ map (\<lambda>k. (Field k, get_prop v k, never_s))
                  (filter (\<lambda>k. k \<notin> set (map fst schema)) (own_keys v))
           else [])
     no_refiner"

definition record_s :: "'n struct \<Rightarrow> 'n struct \<Rightarrow> 'n struct" where
  "record_s Key Value = Struct ''record'' no_coercer
     (\<lambda>v p. Some (if is_object v then [] else [Failure (Expected ''an object'' v) p None]))
     (\<lambda>v. if is_object v
           then concat (map (\<lambda>k. [(Field k, JStr k, Key), (Field k, get_prop v k, Value)]) (own_keys v))
           else [])
     no_refiner"

definition array_s :: "'n struct \<Rightarrow> 'n struct" where
  "array_s Element = Struct ''array'' no_coercer
     (\<lambda>v p. Some (if is_array v then [] else [Failure (Expected ''an array value'' v) p None]))
     (\<lambda>v. case v of
             JArr xs \<Rightarrow> map (\<lambda>(i, x). (Index i, x, Element)) (enumerate 0 xs)
           | _ \<Rightarrow> [])
     no_refiner"

definition optional_s :: "'n struct \<Rightarrow> 'n struct" where
  "optional_s struct = Struct (stype struct) (coercer struct)
     (\<lambda>v p. if v = JUndefined then Some [] else validator struct v p)
     (entries struct)
     (\<lambda>v p. if v = JUndefined then ([], False) else refiner struct v p)"

definition nullable_s :: "'n struct \<Rightarrow> 'n struct" where
  "nullable_s struct = Struct (stype struct) (coercer struct)
     (\<lambda>v p. if v = JNull then Some [] else validator struct v p)
     (entries struct)
     (\<lambda>v p. if v = JNull then ([], False) else refiner struct v p)"

text \<open>
  The value \<^verbatim>\<open>undefined\<close> where \<^verbatim>\<open>optional\<close> or \<^verbatim>\<open>nullable\<close> expects a struct. They
  build their result from \<^verbatim>\<open>{ ...struct, validator, refiner }\<close>: spreading \<^verbatim>\<open>undefined\<close>
  gives no property, so the result has the default coercer and the default, empty entries,
  and no type. Its validator and refiner call \<^verbatim>\<open>struct.validator\<close> and
  \<^verbatim>\<open>struct.refiner\<close> on every value they do not let through themselves: reading a property
  of \<^verbatim>\<open>undefined\<close> is a TypeError.
\<close>

definition undefined_s :: "'n struct" where
  "undefined_s = Struct [] no_coercer (\<lambda>v p. None) no_entries (\<lambda>v p. ([], True))"

text \<open>
  \<^verbatim>\<open>refine(struct, name, refiner)\<close>: the struct's own refiner runs first, then the given
  one; each message it yields becomes a failure at the current path, tagged with the
  refinement's name.
\<close>

definition refine_s ::
  "'n struct \<Rightarrow> string \<Rightarrow> ('n jsval \<Rightarrow> 'n message list \<times> bool) \<Rightarrow> 'n struct" where
  "refine_s struct name f = Struct (stype struct) (coercer struct) (validator struct) (entries struct)
     (\<lambda>v p. case refiner struct v p of
               (fs, True) \<Rightarrow> (fs, True)
             | (fs, False) \<Rightarrow>
                 (case f v of (ms, threw) \<Rightarrow> (fs @ map (\<lambda>m. Failure m p (Some name)) ms, threw)))"

text \<open>
  \<^verbatim>\<open>coerce(struct, condition, coercer)\<close>: a value that satisfies the condition (checked
  without coercion) is transformed before the struct's own coercer sees it.
\<close>

definition coerce_s :: "'n struct \<Rightarrow> 'n struct \<Rightarrow> ('n jsval \<Rightarrow> 'n jsval) \<Rightarrow> 'n struct" where
  "coerce_s struct condition f = Struct (stype struct)
     (\<lambda>v. case is_s v condition of
             None \<Rightarrow> None
           | Some True \<Rightarrow> coercer struct (f v)
           | Some False \<Rightarrow> coercer struct v)
     (validator struct) (entries struct) (refiner struct)"

text \<open>
  \<^verbatim>\<open>union(Structs)\<close>. The coercer returns the coerced value of the first member that
  validates the value with coercion, and the value itself if none does. The validator
  accepts a value that some member accepts without coercion; otherwise it reports its own
  failure followed by the failures of every member.
\<close>

fun union_coercer :: "'n struct list \<Rightarrow> 'n jsval \<Rightarrow> 'n jsval option" where
  "union_coercer [] v = Some v"
| "union_coercer (S # Ss) v = (case validate v S True of
       VOk coerced \<Rightarrow> Some coerced
     | VError _ _ \<Rightarrow> union_coercer Ss v
     | VThrew \<Rightarrow> None)"

fun union_failures :: "'n struct list \<Rightarrow> pkey list \<Rightarrow> 'n jsval \<Rightarrow> (bool \<times> 'n failure list) option" where
  "union_failures [] p v = Some (False, [])"
| "union_failures (S # Ss) p v = (case run S False p v of
       (_, None) \<Rightarrow> None
     | ([], Some _) \<Rightarrow> Some (True, [])
     | (fs, Some _) \<Rightarrow>
         (case union_failures Ss p v of
            None \<Rightarrow> None
          | Some (ok, fs') \<Rightarrow> Some (ok, fs @ fs')))"

fun join_types :: "string list \<Rightarrow> string" where
  "join_types [] = []"
| "join_types [t] = t"
| "join_types (t # ts) = t @ '' | '' @ join_types ts"

definition union_s :: "'n struct list \<Rightarrow> 'n struct" where
  "union_s Structs = Struct ''union'' (union_coercer Structs)
     (\<lambda>v p. case union_failures Structs p v of
               None \<Rightarrow> None
             | Some (True, _) \<Rightarrow> Some []
             | Some (False, fs) \<Rightarrow>
                 Some (Failure (Expected (''the value to satisfy a union of `''
                                  @ join_types (map stype Structs) @ ''`'') v) p None # fs))
     no_entries no_refiner"

section \<open>The schema of the build configuration\<close>

text \<open>
  A template literal around one value. A string is spliced in as it is, an object renders
  as \<^verbatim>\<open>[object Object]\<close>; numbers and arrays are kept symbolic.
\<close>

text \<open>The double quote character, as a string.\<close>

definition dq :: string where
  "dq = [CHR 0x22]"

definition template :: "string \<Rightarrow> 'n jsval \<Rightarrow> string \<Rightarrow> 'n message" where
  "template pre v post = (case v of
       JStr s \<Rightarrow> Text (pre @ s @ post)
     | JObj _ \<Rightarrow> Text (pre @ ''[object Object]'' @ post)
     | JUndefined \<Rightarrow> Text (pre @ ''undefined'' @ post)
     | JNull \<Rightarrow> Text (pre @ ''null'' @ post)
     | JBool b \<Rightarrow> Text (pre @ (if b then ''true'' else ''false'') @ post)
     | _ \<Rightarrow> Template pre v post)"

subsection \<open>unique\<close>

text \<open>
  \<^verbatim>\<open>uniqWith(value, eq)\<close> keeps an element unless the comparator relates it to an element
  kept before; without a comparator the elements are compared as by \<^verbatim>\<open>uniq\<close>. A
  comparator that throws gives \<open>None\<close>.
\<close>

fun includes_with ::
  "('n jsval \<Rightarrow> 'n jsval \<Rightarrow> bool option) \<Rightarrow> 'n jsval list \<Rightarrow> 'n jsval \<Rightarrow> bool option" where
  "includes_with cmp [] x = Some False"
| "includes_with cmp (y # ys) x = (case cmp x y of
       None \<Rightarrow> None
     | Some True \<Rightarrow> Some True
     | Some False \<Rightarrow> includes_with cmp ys x)"

fun base_uniq ::
  "('n jsval \<Rightarrow> 'n jsval \<Rightarrow> bool option) \<Rightarrow> 'n jsval list \<Rightarrow> 'n jsval list \<Rightarrow> 'n jsval list option" where
  "base_uniq cmp [] result = Some result"
| "base_uniq cmp (x # xs) result = (case includes_with cmp result x of
       None \<Rightarrow> None
     | Some True \<Rightarrow> base_uniq cmp xs result
     | Some False \<Rightarrow> base_uniq cmp xs (result @ [x]))"

definition uniqWith ::
  "'n jsval list \<Rightarrow> ('n jsval \<Rightarrow> 'n jsval \<Rightarrow> bool option) option \<Rightarrow> 'n jsval list option" where
  "uniqWith array eq =
     base_uniq (case eq of Some cmp \<Rightarrow> cmp | None \<Rightarrow> (\<lambda>a b. Some (strict_equals a b))) array []"

definition duplicated :: "'n message" where
  "duplicated = Text ''Array contains duplicated values''"

text \<open>
  The refinement of \<^verbatim>\<open>unique\<close>. It is reached with an array only, since the array
  validator has passed; a string is array-like, null and undefined have no
  \<^verbatim>\<open>length\<close>, and any other value has a \<^verbatim>\<open>length\<close> that is not a number.
\<close>

definition unique_check ::
  "('n jsval \<Rightarrow> 'n jsval \<Rightarrow> bool option) option \<Rightarrow> 'n jsval \<Rightarrow> 'n message list \<times> bool" where
  "unique_check eq value =
     (let check = (\<lambda>xs. case uniqWith xs eq of
                      None \<Rightarrow> ([], True)
                    | Some u \<Rightarrow> if length u = length xs then ([], False) else ([duplicated], False))
      in case value of
           JArr xs \<Rightarrow> check xs
         | JStr s \<Rightarrow> check (char_values s)
         | JUndefined \<Rightarrow> ([], True)
         | JNull \<Rightarrow> ([], True)
         | _ \<Rightarrow> ([duplicated], False))"

definition unique ::
  "'n struct \<Rightarrow> ('n jsval \<Rightarrow> 'n jsval \<Rightarrow> bool option) option \<Rightarrow> 'n struct" where
  "unique struct eq = refine_s struct ''unique'' (unique_check eq)"

subsection \<open>Environment entries\<close>

definition one_property :: "'n jsval \<Rightarrow> 'n message list \<times> bool" where
  "one_property value = (case object_keys value of
       None \<Rightarrow> ([], True)
     | Some keys \<Rightarrow>
         if length keys \<noteq> 1
         then ([Text ''Declaration should have only one property, the name''], False)
         else ([], False))"

definition first_property :: "'n jsval \<Rightarrow> 'n jsval" where
  "first_property value = JObj
     [(''key'', case own_keys value of [] \<Rightarrow> JUndefined | k # _ \<Rightarrow> JStr k),
      (''value'', case own_props value of [] \<Rightarrow> JUndefined | (_, x) # _ \<Rightarrow> x)]"

definition EnvDefinitionStruct :: "'n struct" where
  "EnvDefinitionStruct = coerce_s
     (object_s [(''key'', string_s), (''value'', unknown_s)])
     (refine_s (record_s string_s any_s) ''Env variable declaration'' one_property)
     first_property"

text \<open>The key of an entry as the equality of \<^verbatim>\<open>EnvArrayStruct\<close> reads it.\<close>

definition env_key :: "'n jsval \<Rightarrow> 'n jsval option" where
  "env_key a = (if is_string a then Some a else get_member a ''key'')"

definition env_eq :: "'n jsval \<Rightarrow> 'n jsval \<Rightarrow> bool option" where
  "env_eq a b = (case env_key a of
       None \<Rightarrow> None
     | Some keyA \<Rightarrow> (case env_key b of None \<Rightarrow> None | Some keyB \<Rightarrow> Some (strict_equals keyA keyB)))"

definition EnvArrayStruct :: "'n struct" where
  "EnvArrayStruct = unique (array_s (union_s [string_s, EnvDefinitionStruct])) (Some env_eq)"

subsection \<open>Build types and features\<close>

definition BuildTypeStruct :: "'n struct" where
  "BuildTypeStruct = object_s
     [(''features'', optional_s (unique (array_s string_s) None)),
      (''env'', optional_s EnvArrayStruct),
      (''isPrerelease'', optional_s boolean_s),
      (''manifestOverrides'', union_s [string_s, literal_s False]),
      (''buildNameOverride'', union_s [string_s, literal_s False])]"

definition ExclusiveIncludeAssetStruct :: "'n struct" where
  "ExclusiveIncludeAssetStruct = coerce_s
     (object_s [(''exclusiveInclude'', string_s)])
     string_s
     (\<lambda>exclusiveInclude. JObj [(''exclusiveInclude'', exclusiveInclude)])"

text \<open>
  \<^verbatim>\<open>AssetStruct\<close> is imported from \<^verbatim>\<open>./build-config.type\<close>, which exports it as a type
  only, and is declared again as a type alias; \<^verbatim>\<open>CopyAssetStruct\<close> is an interface. No
  struct of that name is ever built: where \<^verbatim>\<open>FeatureStruct\<close> passes \<^verbatim>\<open>AssetStruct\<close> to
  \<^verbatim>\<open>optional\<close>, the name holds \<^verbatim>\<open>undefined\<close>.
\<close>

definition AssetStruct :: "'n struct" where
  "AssetStruct = undefined_s"

definition FeatureStruct :: "'n struct" where
  "FeatureStruct = object_s
     [(''env'', optional_s EnvArrayStruct),
      (''assets'', optional_s AssetStruct)]"

text \<open>
  The refinement of \<^verbatim>\<open>FeaturesStruct\<close>: one set \<open>definitions\<close> for the whole map. The
  inner loop visits the entries of one feature, the outer loop the features. Each returns
  the messages yielded and the set, or \<open>None\<close> in its place if a TypeError ends the loop.
\<close>

definition conflict :: "'n jsval \<Rightarrow> 'n message" where
  "conflict env = template (''Multiple defined features have a definition of '' @ dq) env
     (dq @ '' env variable, resulting in a conflict'')"

definition set_has :: "'n jsval list \<Rightarrow> 'n jsval \<Rightarrow> bool" where
  "set_has definitions k = (\<exists>d \<in> set definitions. strict_equals d k)"

definition set_add :: "'n jsval list \<Rightarrow> 'n jsval \<Rightarrow> 'n jsval list" where
  "set_add definitions k = (if set_has definitions k then definitions else definitions @ [k])"

fun scan_env :: "'n jsval list \<Rightarrow> 'n jsval list \<Rightarrow> 'n message list \<times> 'n jsval list option" where
  "scan_env [] definitions = ([], Some definitions)"
| "scan_env (env # envs) definitions =
     (if is_string env then scan_env envs definitions
      else case get_member env ''key'' of
             None \<Rightarrow> ([], None)
           | Some k \<Rightarrow>
               (case scan_env envs (set_add definitions k) of
                  (ms, r) \<Rightarrow> ((if set_has definitions k then [conflict env] else []) @ ms, r)))"

text \<open>\<^verbatim>\<open>feature?.env ?? []\<close>\<close>

definition feature_env :: "'n jsval \<Rightarrow> 'n jsval" where
  "feature_env feature =
     (let env = (case get_member feature ''env'' of None \<Rightarrow> JUndefined | Some e \<Rightarrow> e)
      in if env = JUndefined \<or> env = JNull then JArr [] else env)"

fun scan_features :: "'n jsval list \<Rightarrow> 'n jsval list \<Rightarrow> 'n message list \<times> 'n jsval list option" where
  "scan_features [] definitions = ([], Some definitions)"
| "scan_features (feature # features) definitions =
     (case iterate (feature_env feature) of
        None \<Rightarrow> ([], None)
      | Some envs \<Rightarrow>
          (case scan_env envs definitions of
             (ms, None) \<Rightarrow> (ms, None)
           | (ms, Some definitions') \<Rightarrow>
               (case scan_features features definitions' of (ms', r) \<Rightarrow> (ms @ ms', r))))"

definition feature_definitions :: "'n jsval \<Rightarrow> 'n message list \<times> bool" where
  "feature_definitions value = (case object_values value of
       None \<Rightarrow> ([], True)
     | Some features \<Rightarrow> (case scan_features features [] of (ms, r) \<Rightarrow> (ms, r = None)))"

definition FeaturesStruct :: "'n struct" where
  "FeaturesStruct = refine_s
     (record_s string_s (coerce_s FeatureStruct (nullable_s never_s) (\<lambda>_. JObj [])))
     ''feature definitions''
     feature_definitions"

subsection \<open>The document\<close>

text \<open>\<^verbatim>\<open>keys.includes(x)\<close> for a list of strings.\<close>

definition includes_s :: "string list \<Rightarrow> 'n jsval \<Rightarrow> bool" where
  "includes_s keys x = (case x of JStr s \<Rightarrow> s \<in> set keys | _ \<Rightarrow> False)"

definition default_exists :: "'n jsval \<Rightarrow> 'n message list \<times> bool" where
  "default_exists value = (case object_keys (get_prop value ''buildTypes'') of
       None \<Rightarrow> ([], True)
     | Some keys \<Rightarrow>
         if \<not> includes_s keys (get_prop value ''default'')
         then ([template (''Default build type '' @ dq) (get_prop value ''default'')
                  (dq @ '' does not exist in builds declarations'')], False)
         else ([], False))"

definition BuildTypesStruct :: "'n struct" where
  "BuildTypesStruct = refine_s
     (object_s
        [(''default'', string_s),
         (''buildTypes'', record_s string_s BuildTypeStruct),
         (''features'', FeaturesStruct),
         (''env'', EnvArrayStruct)])
     ''BuildTypes''
     default_exists"

section \<open>Loading\<close>

text \<open>
  The functions of the module hand out references to objects, and a reference is compared
  by identity. An object is identified by its address, the index at which \<open>objects\<close> holds
  it; the list keeps every object as it was when it was built (what the library later
  writes into the arrays and records of a document it validates is not followed). Decoding
  the file builds a new object, and so does a successful validation: the coercer of
  \<^verbatim>\<open>object\<close> copies its argument, and only an object passes \<open>BuildTypesStruct\<close>.

  The module state is the cache, \<open>None\<close> for \<^verbatim>\<open>null\<close>; \<open>reads\<close> counts the reads of
  \<^verbatim>\<open>builds.yml\<close>. The argument \<open>source\<close> is what reading and decoding the file gives at the
  time of the call, \<open>None\<close> if that throws. A failed validation throws an error built
  from the enumerated failures; a TypeError raised inside a refinement escapes as it is.
\<close>

type_synonym addr = nat

record 'n process =
  cachedBuildTypes :: "addr option"
  reads :: nat
  objects :: "'n jsval list"

definition allocate :: "'n jsval \<Rightarrow> 'n process \<Rightarrow> addr \<times> 'n process" where
  "allocate v st = (length (objects st), st\<lparr>objects := objects st @ [v]\<rparr>)"

datatype 'n thrown = ReadError | AssertionError "'n failure list" | TypeError

definition loadBuildTypesConfig ::
  "'n jsval option \<Rightarrow> 'n process \<Rightarrow> ('n thrown + addr) \<times> 'n process" where
  "loadBuildTypesConfig source st = (case cachedBuildTypes st of
       Some cached \<Rightarrow> (Inr cached, st)
     | None \<Rightarrow>
         (let st' = st\<lparr>reads := reads st + 1\<rparr>
          in case source of
               None \<Rightarrow> (Inl ReadError, st')
             | Some decoded \<Rightarrow>
                 (case allocate decoded st' of (buildsData, st1) \<Rightarrow>
                    (case validate decoded BuildTypesStruct True of
                       VThrew \<Rightarrow> (Inl TypeError, st1)
                     | VError fs threw \<Rightarrow>
                         (if threw then (Inl TypeError, st1) else (Inl (AssertionError fs), st1))
                     | VOk normalized \<Rightarrow>
                         (case allocate normalized st1 of (result, st2) \<Rightarrow>
                            (Inr buildsData, st2\<lparr>cachedBuildTypes := Some result\<rparr>))))))"

section \<open>Auxiliary notions for the proofs\<close>

text \<open>
  The two stages of \<^verbatim>\<open>run\<close>: everything before the refiner, and the refiner applied to
  what that stage produced.
\<close>

definition coerced :: "'n struct \<Rightarrow> bool \<Rightarrow> 'n jsval \<Rightarrow> 'n jsval option" where
  "coerced s c v0 = (if c then coercer s v0 else Some v0)"

definition pre_refine :: "'n struct \<Rightarrow> bool \<Rightarrow> pkey list \<Rightarrow> 'n jsval \<Rightarrow> 'n trace" where
  "pre_refine s c p v0 =
     (case coerced s c v0 of
       None \<Rightarrow> ([], None)
     | Some v1 \<Rightarrow>
        (case validator s v1 p of
           None \<Rightarrow> ([], None)
         | Some vf \<Rightarrow>
            (case run_entries c p (map (map_prod id (map_prod id run)) (entries s v1))
                    (if vf = [] then Valid else NotValid) v1 of
               (ef, fin) \<Rightarrow> (vf @ ef, fin))))"

definition apply_refiner ::
  "('n jsval \<Rightarrow> pkey list \<Rightarrow> 'n failure list \<times> bool) \<Rightarrow> pkey list \<Rightarrow> 'n trace \<Rightarrow> 'n trace" where
  "apply_refiner re p t = (case t of
       (fs, None) \<Rightarrow> (fs, None)
     | (fs, Some (st, v2)) \<Rightarrow>
         if st = NotValid then (fs, Some (st, v2))
         else (case re v2 p of (rf, threw) \<Rightarrow>
                 (fs @ rf, if threw then None else Some (if rf = [] then st else NotRefined, v2))))"

definition array_entries :: "'n struct \<Rightarrow> nat \<Rightarrow> 'n jsval list
    \<Rightarrow> (pkey \<times> 'n jsval \<times> (bool \<Rightarrow> pkey list \<Rightarrow> 'n jsval \<Rightarrow> 'n trace)) list" where
  "array_entries E n xs = map (\<lambda>(i, x). (Index i, x, run E)) (enumerate n xs)"

definition record_entries :: "'n struct \<Rightarrow> 'n struct \<Rightarrow> 'n jsval \<Rightarrow> string list
    \<Rightarrow> (pkey \<times> 'n jsval \<times> (bool \<Rightarrow> pkey list \<Rightarrow> 'n jsval \<Rightarrow> 'n trace)) list" where
  "record_entries K V v ks =
     concat (map (\<lambda>k. [(Field k, JStr k, run K), (Field k, get_prop v k, run V)]) ks)"

definition field_entries :: "'n jsval \<Rightarrow> (string \<times> 'n struct) list
    \<Rightarrow> (pkey \<times> 'n jsval \<times> (bool \<Rightarrow> pkey list \<Rightarrow> 'n jsval \<Rightarrow> 'n trace)) list" where
  "field_entries v schema = map (\<lambda>(k, s). (Field k, get_prop v k, run s)) schema"

definition accepts :: "'n struct \<Rightarrow> 'n jsval \<Rightarrow> bool" where
  "accepts s v \<longleftrightarrow> (\<forall>c p. run s c p v = ([], Some (Valid, v)))"

definition unknown_entries :: "'n jsval \<Rightarrow> (string \<times> 'n struct) list
    \<Rightarrow> (pkey \<times> 'n jsval \<times> (bool \<Rightarrow> pkey list \<Rightarrow> 'n jsval \<Rightarrow> 'n trace)) list" where
  "unknown_entries v schema = map (\<lambda>k. (Field k, get_prop v k, run never_s))
     (filter (\<lambda>k. k \<notin> set (map fst schema)) (own_keys v))"


section \<open>Entry forms\<close>

text \<open>
  The forms of an environment entry: a bare string, an object with a single own key (the
  name), or the canonical object with the two own keys \<^verbatim>\<open>key\<close> (a string) and \<^verbatim>\<open>value\<close>.
  The key of an entry is the string itself, the single own key, or the string under
  \<^verbatim>\<open>key\<close>.
\<close>

definition is_canonical_entry :: "'n jsval \<Rightarrow> bool" where
  "is_canonical_entry e = (case e of
       JObj kvs \<Rightarrow> distinct (map fst kvs) \<and> set (map fst kvs) = {''key'', ''value''}
                    \<and> is_string (get_prop e ''key'')
     | _ \<Rightarrow> False)"

definition is_env_entry :: "'n jsval \<Rightarrow> bool" where
  "is_env_entry e = (case e of
       JStr _ \<Rightarrow> True
     | JObj kvs \<Rightarrow> length kvs = 1 \<or> is_canonical_entry e
     | _ \<Rightarrow> False)"

definition entry_key :: "'n jsval \<Rightarrow> string" where
  "entry_key e = (case e of
       JStr s \<Rightarrow> s
     | JObj kvs \<Rightarrow>
         (case kvs of
            [(k, _)] \<Rightarrow> k
          | _ \<Rightarrow> (case get_prop e ''key'' of JStr s \<Rightarrow> s | _ \<Rightarrow> []))
     | _ \<Rightarrow> [])"

text \<open>What validation turns an entry into: only the single-key object changes.\<close>

definition normal_entry :: "'n jsval \<Rightarrow> 'n jsval" where
  "normal_entry e = (case e of
       JObj kvs \<Rightarrow>
         (case kvs of
            [(k, x)] \<Rightarrow> JObj [(''key'', JStr k), (''value'', x)]
          | _ \<Rightarrow> e)
     | _ \<Rightarrow> e)"

section \<open>Feature forms\<close>

text \<open>
  A feature that passes validation is \<^verbatim>\<open>null\<close> (no body) or an object with at most the
  keys \<^verbatim>\<open>env\<close> and \<^verbatim>\<open>assets\<close>, whose \<^verbatim>\<open>env\<close>, if any, is a sequence of entries with
  distinct keys and whose \<^verbatim>\<open>assets\<close> is undefined.
\<close>

definition is_env :: "'n jsval \<Rightarrow> bool" where
  "is_env v = (case v of
       JArr xs \<Rightarrow> list_all is_env_entry xs \<and> distinct (map entry_key xs)
     | _ \<Rightarrow> False)"

definition normal_env :: "'n jsval \<Rightarrow> 'n jsval" where
  "normal_env v = (case v of JArr xs \<Rightarrow> JArr (map normal_entry xs) | _ \<Rightarrow> v)"

definition is_feature :: "'n jsval \<Rightarrow> bool" where
  "is_feature f = (case f of
       JNull \<Rightarrow> True
     | JObj kvs \<Rightarrow>
         set (map fst kvs) \<subseteq> {''env'', ''assets''}
         \<and> (get_prop f ''env'' = JUndefined \<or> is_env (get_prop f ''env''))
         \<and> get_prop f ''assets'' = JUndefined
     | _ \<Rightarrow> False)"

text \<open>
  The same without the condition on the keys: the \<open>env\<close> of a feature may repeat a key.
  Such a feature does not pass validation.
\<close>

definition feature_form :: "'n jsval \<Rightarrow> bool" where
  "feature_form f = (case f of
       JNull \<Rightarrow> True
     | JObj kvs \<Rightarrow>
         set (map fst kvs) \<subseteq> {''env'', ''assets''}
         \<and> (get_prop f ''env'' = JUndefined
              \<or> (case get_prop f ''env'' of JArr xs \<Rightarrow> list_all is_env_entry xs | _ \<Rightarrow> False))
         \<and> get_prop f ''assets'' = JUndefined
     | _ \<Rightarrow> False)"

text \<open>What validation turns a feature into.\<close>

definition normal_feature :: "'n jsval \<Rightarrow> 'n jsval" where
  "normal_feature f = (case f of
       JNull \<Rightarrow> JObj []
     | _ \<Rightarrow> set_prop f (Field ''env'') (normal_env (get_prop f ''env'')))"

text \<open>
  The entries of a feature's \<open>env\<close>, and the keys that the object-form entries of a
  sequence define. \<open>conflicts seen ks\<close> counts the keys of \<open>ks\<close> that are in \<open>seen\<close> or
  occur earlier in \<open>ks\<close>.
\<close>

definition feature_entries :: "'n jsval \<Rightarrow> 'n jsval list" where
  "feature_entries f = (case get_prop f ''env'' of JArr xs \<Rightarrow> xs | _ \<Rightarrow> [])"

definition defined_keys :: "'n jsval list \<Rightarrow> string list" where
  "defined_keys xs = map entry_key (filter (\<lambda>e. \<not> is_string e) xs)"

definition all_defined_keys :: "(string \<times> 'n jsval) list \<Rightarrow> string list" where
  "all_defined_keys fs = concat (map (\<lambda>(name, f). defined_keys (feature_entries f)) fs)"

fun add_keys :: "string list \<Rightarrow> string list \<Rightarrow> string list" where
  "add_keys seen [] = seen"
| "add_keys seen (k # ks) = add_keys (if k \<in> set seen then seen else seen @ [k]) ks"

fun conflicts :: "string list \<Rightarrow> string list \<Rightarrow> nat" where
  "conflicts seen [] = 0"
| "conflicts seen (k # ks) =
     (if k \<in> set seen then Suc (conflicts seen ks) else conflicts (seen @ [k]) ks)"

definition conflict_failure :: "pkey list \<Rightarrow> 'n failure" where
  "conflict_failure p = Failure
     (Text (''Multiple defined features have a definition of '' @ dq @ ''[object Object]'' @ dq
            @ '' env variable, resulting in a conflict''))
     p (Some ''feature definitions'')"

text \<open>The value of a features map entry: a feature, or \<^verbatim>\<open>null\<close> for the empty feature.\<close>

definition FeatureValueStruct :: "'n struct" where
  "FeatureValueStruct = coerce_s FeatureStruct (nullable_s never_s) (\<lambda>_. JObj [])"

text \<open>
  A feature repeats a key when two entries of its \<open>env\<close> have the same key. Its \<open>env\<close>
  then fails the uniqueness check, and the features map keeps the name of the feature,
  a string, in the place of the feature.
\<close>

definition repeats :: "'n jsval \<Rightarrow> bool" where
  "repeats f = (\<not> distinct (map entry_key (feature_entries f)))"

definition unique_failure :: "pkey list \<Rightarrow> string \<Rightarrow> 'n failure" where
  "unique_failure p name = Failure duplicated (p @ [Field name, Field ''env'']) (Some ''unique'')"

definition unique_failures :: "pkey list \<Rightarrow> (string \<times> 'n jsval) list \<Rightarrow> 'n failure list" where
  "unique_failures p fs =
     concat (map (\<lambda>(name, f). if repeats f then [unique_failure p name] else []) fs)"

definition validated_feature :: "string \<Rightarrow> 'n jsval \<Rightarrow> 'n jsval" where
  "validated_feature name f = (if repeats f then JStr name else normal_feature f)"

definition seen_features :: "(string \<times> 'n jsval) list \<Rightarrow> (string \<times> 'n jsval) list" where
  "seen_features fs = filter (\<lambda>(name, f). \<not> repeats f) fs"

section \<open>The fields of the document\<close>

text \<open>The object struct that \<open>BuildTypesStruct\<close> refines.\<close>

definition BuildTypesFields :: "'n struct" where
  "BuildTypesFields = object_s
     [(''default'', string_s),
      (''buildTypes'', record_s string_s BuildTypeStruct),
      (''features'', FeaturesStruct),
      (''env'', EnvArrayStruct)]"


section \<open>Canonical documents\<close>

text \<open>
  A document in canonical form whose features declare no assets: every entry of every
  \<open>env\<close> is an object with the two keys \<^verbatim>\<open>key\<close> and \<^verbatim>\<open>value\<close>, and the document has the
  invariants of a build configuration: the entries of a sequence have distinct keys, the
  features named by a build type are distinct strings, no key is defined by two entries of
  the features map, and the default is one of the build types.
\<close>

definition canonical_env :: "'n jsval \<Rightarrow> bool" where
  "canonical_env v = (case v of
       JArr xs \<Rightarrow> list_all is_canonical_entry xs \<and> distinct (map entry_key xs)
     | _ \<Rightarrow> False)"

definition canonical_feature :: "'n jsval \<Rightarrow> bool" where
  "canonical_feature f = (case f of
       JObj kvs \<Rightarrow>
         set (map fst kvs) \<subseteq> {''env'', ''assets''}
         \<and> (get_prop f ''env'' = JUndefined \<or> canonical_env (get_prop f ''env''))
         \<and> get_prop f ''assets'' = JUndefined
     | _ \<Rightarrow> False)"

definition is_override :: "'n jsval \<Rightarrow> bool" where
  "is_override v = (is_string v \<or> v = JBool False)"

definition unique_strings :: "'n jsval \<Rightarrow> bool" where
  "unique_strings v = (case v of JArr xs \<Rightarrow> list_all is_string xs \<and> distinct xs | _ \<Rightarrow> False)"

definition canonical_build_type :: "'n jsval \<Rightarrow> bool" where
  "canonical_build_type b = (case b of
       JObj kvs \<Rightarrow>
         set (map fst kvs)
           \<subseteq> {''features'', ''env'', ''isPrerelease'', ''manifestOverrides'', ''buildNameOverride''}
         \<and> (get_prop b ''features'' = JUndefined \<or> unique_strings (get_prop b ''features''))
         \<and> (get_prop b ''env'' = JUndefined \<or> canonical_env (get_prop b ''env''))
         \<and> (get_prop b ''isPrerelease'' = JUndefined \<or> is_boolean (get_prop b ''isPrerelease''))
         \<and> is_override (get_prop b ''manifestOverrides'')
         \<and> is_override (get_prop b ''buildNameOverride'')
     | _ \<Rightarrow> False)"

definition canonical_build_types :: "'n jsval \<Rightarrow> 'n jsval \<Rightarrow> bool" where
  "canonical_build_types v name = (case v of
       JObj bts \<Rightarrow> distinct (map fst bts) \<and> list_all canonical_build_type (map snd bts)
                    \<and> includes_s (map fst bts) name
     | _ \<Rightarrow> False)"

definition canonical_features :: "'n jsval \<Rightarrow> bool" where
  "canonical_features v = (case v of
       JObj fs \<Rightarrow> distinct (map fst fs) \<and> list_all canonical_feature (map snd fs)
                   \<and> distinct (all_defined_keys fs)
     | _ \<Rightarrow> False)"

definition canonical_document :: "'n jsval \<Rightarrow> bool" where
  "canonical_document doc = (case doc of
       JObj kvs \<Rightarrow>
         set (map fst kvs) \<subseteq> {''default'', ''buildTypes'', ''features'', ''env''}
         \<and> canonical_build_types (get_prop doc ''buildTypes'') (get_prop doc ''default'')
         \<and> canonical_features (get_prop doc ''features'')
         \<and> canonical_env (get_prop doc ''env'')
     | _ \<Rightarrow> False)"

text \<open>Validation with coercion returns the value as it is, at every path.\<close>

definition passes :: "'n struct \<Rightarrow> 'n jsval \<Rightarrow> bool" where
  "passes s v \<longleftrightarrow> (\<forall>p. run s True p v = ([], Some (Valid, v)))"

section \<open>Example documents\<close>

text \<open>A small configuration with one build type and no features, around a global \<open>env\<close>.\<close>

definition example_builds :: "unit jsval \<Rightarrow> unit jsval" where
  "example_builds env = JObj
     [(''default'', JStr ''stable''),
      (''buildTypes'', JObj [(''stable'',
          JObj [(''manifestOverrides'', JBool False), (''buildNameOverride'', JBool False)])]),
      (''features'', JObj []),
      (''env'', env)]"

definition example_document :: "string \<Rightarrow> unit jsval \<Rightarrow> unit jsval \<Rightarrow> unit jsval" where
  "example_document name features env = JObj
     [(''default'', JStr name),
      (''buildTypes'', JObj [(''stable'',
          JObj [(''manifestOverrides'', JBool False), (''buildNameOverride'', JBool False)])]),
      (''features'', features),
      (''env'', env)]"

text \<open>
  Two features that define the key \<open>X\<close> in object form, and two features that only name it.
\<close>

definition defining_features :: "(string \<times> unit jsval) list" where
  "defining_features =
     [(''a'', JObj [(''env'', JArr [JObj [(''X'', JStr ''1'')]])]),
      (''b'', JObj [(''env'', JArr [JObj [(''X'', JStr ''2'')], JStr ''Y''])])]"

definition naming_features :: "(string \<times> unit jsval) list" where
  "naming_features =
     [(''a'', JObj [(''env'', JArr [JStr ''X''])]),
      (''b'', JObj [(''env'', JArr [JStr ''X''])])]"

text \<open>One feature whose own sequence defines the key \<open>X\<close> twice, in canonical form.\<close>

definition repeating_features :: "(string \<times> unit jsval) list" where
  "repeating_features =
     [(''a'', JObj [(''env'', JArr [JObj [(''key'', JStr ''X''), (''value'', JStr ''1'')],
                                    JObj [(''key'', JStr ''X''), (''value'', JStr ''2'')]])])]"


text \<open>
  A document in the canonical form of the specification, with two build types and two
  features, each of which declares assets.
\<close>

definition canonical_example :: "unit jsval" where
  "canonical_example = JObj
     [(''default'', JStr ''stable''),
      (''buildTypes'', JObj
         [(''stable'', JObj
             [(''features'', JArr [JStr ''a'', JStr ''b'']),
              (''env'', JArr [JObj [(''key'', JStr ''MODE''), (''value'', JStr ''production'')]]),
              (''manifestOverrides'', JBool False),
              (''buildNameOverride'', JBool False)]),
          (''beta'', JObj
             [(''isPrerelease'', JBool True),
              (''manifestOverrides'', JStr ''./manifest/beta''),
              (''buildNameOverride'', JStr ''Beta'')])]),
      (''features'', JObj
         [(''a'', JObj
             [(''env'', JArr [JObj [(''key'', JStr ''X''), (''value'', JStr ''1'')],
                              JObj [(''key'', JStr ''Y''), (''value'', JNull)]]),
              (''assets'', JObj [(''exclusiveInclude'', JStr ''a/**'')])]),
          (''b'', JObj
             [(''assets'', JObj [(''src'', JStr ''b/in''), (''dest'', JStr ''b/out'')])])]),
      (''env'', JArr [JObj [(''key'', JStr ''X''), (''value'', JBool True)],
                      JObj [(''key'', JStr ''Z''), (''value'', JStr ''z'')]])]"

text \<open>
  Three features: the first defines \<open>X\<close> twice in its own sequence, the two others define
  \<open>X\<close> once each.
\<close>

definition mixed_features :: "(string \<times> unit jsval) list" where
  "mixed_features =
     [(''a'', JObj [(''env'', JArr [JObj [(''key'', JStr ''X''), (''value'', JStr ''1'')],
                                    JObj [(''key'', JStr ''X''), (''value'', JStr ''2'')]])]),
      (''b'', JObj [(''env'', JArr [JObj [(''X'', JStr ''3'')]])]),
      (''c'', JObj [(''env'', JArr [JObj [(''X'', JStr ''4'')]])])]"

definition initial_process :: "unit process" where
  "initial_process = \<lparr>cachedBuildTypes = None, reads = 0, objects = []\<rparr>"

section \<open>Properties of the validation library\<close>

lemma run_sel:
  "run s c p v0 =
     (case (if c then coercer s v0 else Some v0) of
       None \<Rightarrow> ([], None)
     | Some v1 \<Rightarrow>
        (case validator s v1 p of
           None \<Rightarrow> ([], None)
         | Some vf \<Rightarrow>
            (case run_entries c p (map (map_prod id (map_prod id run)) (entries s v1))
                    (if vf = [] then Valid else NotValid) v1 of
               (ef, None) \<Rightarrow> (vf @ ef, None)
             | (ef, Some (st, v2)) \<Rightarrow>
                 if st = NotValid then (vf @ ef, Some (st, v2))
                 else (case refiner s v2 p of (rf, threw) \<Rightarrow>
                         if threw then (vf @ ef @ rf, None)
                         else (vf @ ef @ rf, Some (if rf = [] then st else NotRefined, v2))))))"
proof -
  have "run s c p v0 = run (Struct (stype s) (coercer s) (validator s) (entries s) (refiner s)) c p v0"
    by simp
  then show ?thesis
    by (simp only: run.simps)
qed

lemma run_stages: "run s c p v = apply_refiner (refiner s) p (pre_refine s c p v)"
proof (cases "if c then coercer s v else Some v")
  case None
  then show ?thesis
    by (simp add: run_sel pre_refine_def coerced_def apply_refiner_def)
next
  case (Some v1)
  note v1 = Some
  show ?thesis
  proof (cases "validator s v1 p")
    case None
    with v1 show ?thesis
      by (simp add: run_sel pre_refine_def coerced_def apply_refiner_def)
  next
    case (Some vf)
    note vf = Some
    obtain ef fin where es: "run_entries c p (map (map_prod id (map_prod id run)) (entries s v1))
        (if vf = [] then Valid else NotValid) v1 = (ef, fin)"
      by (cases "run_entries c p (map (map_prod id (map_prod id run)) (entries s v1))
        (if vf = [] then Valid else NotValid) v1")
    show ?thesis
    proof (cases fin)
      case None
      with v1 vf es show ?thesis
        by (simp add: run_sel pre_refine_def coerced_def apply_refiner_def)
    next
      case (Some sv)
      obtain st v2 where sv: "sv = (st, v2)" by (cases sv)
      obtain rf threw where rf: "refiner s v2 p = (rf, threw)" by (cases "refiner s v2 p")
      from v1 vf es Some sv rf show ?thesis
        by (simp add: run_sel pre_refine_def coerced_def apply_refiner_def)
    qed
  qed
qed

lemma pre_refine_refine: "pre_refine (refine_s s name f) c p v = pre_refine s c p v"
  by (simp add: pre_refine_def coerced_def refine_s_def split: option.splits prod.splits)

lemma apply_refiner_refine:
  "apply_refiner (refiner (refine_s s name f)) p t =
     (case apply_refiner (refiner s) p t of
        (fs, None) \<Rightarrow> (fs, None)
      | (fs, Some (st, v2)) \<Rightarrow>
          if st = NotValid then (fs, Some (st, v2))
          else (case f v2 of (ms, threw) \<Rightarrow>
                  (fs @ map (\<lambda>m. Failure m p (Some name)) ms,
                   if threw then None else Some (if ms = [] then st else NotRefined, v2))))"
  by (simp add: apply_refiner_def refine_s_def split: prod.splits option.splits bool.splits)

lemma run_refine:
  "run (refine_s s name f) c p v =
     (case run s c p v of
        (fs, None) \<Rightarrow> (fs, None)
      | (fs, Some (st, v2)) \<Rightarrow>
          if st = NotValid then (fs, Some (st, v2))
          else (case f v2 of (ms, threw) \<Rightarrow>
                  (fs @ map (\<lambda>m. Failure m p (Some name)) ms,
                   if threw then None else Some (if ms = [] then st else NotRefined, v2))))"
  by (simp only: run_stages [of "refine_s s name f"] run_stages [of s] pre_refine_refine apply_refiner_refine)

lemma run_define:
  "run (define_s name check) c p v =
     (case check v of None \<Rightarrow> ([], Some (Valid, v)) | Some m \<Rightarrow> ([Failure m p None], Some (NotValid, v)))"
  by (simp add: define_s_def no_coercer_def no_entries_def no_refiner_def split: option.splits)

lemma run_string:
  "run string_s c p v = (if is_string v then ([], Some (Valid, v))
     else ([Failure (Expected ''a string'' v) p None], Some (NotValid, v)))"
  by (simp add: string_s_def run_define)

lemma run_any: "run any_s c p v = ([], Some (Valid, v))"
  by (simp add: any_s_def run_define)

lemma run_unknown: "run unknown_s c p v = ([], Some (Valid, v))"
  by (simp add: unknown_s_def run_define)

lemma run_never:
  "run never_s c p v = ([Failure (expected_type ''never'' v) p None], Some (NotValid, v))"
  by (simp add: never_s_def run_define)

lemma run_boolean:
  "run boolean_s c p v = (if is_boolean v then ([], Some (Valid, v))
     else ([Failure (expected_type ''boolean'' v) p None], Some (NotValid, v)))"
  by (simp add: boolean_s_def run_define)

lemma run_coerce_False: "run (coerce_s s cond f) False p v = run s False p v"
  by (cases s) (simp add: coerce_s_def)

lemma run_coerce_True:
  "run (coerce_s s cond f) True p v =
     (case is_s v cond of
        None \<Rightarrow> ([], None)
      | Some True \<Rightarrow> run s True p (f v)
      | Some False \<Rightarrow> run s True p v)"
  by (cases s) (simp add: coerce_s_def split: option.splits bool.splits)

lemma run_union:
  "run (union_s Ss) c p v =
     (case (if c then union_coercer Ss v else Some v) of
        None \<Rightarrow> ([], None)
      | Some v1 \<Rightarrow>
         (case union_failures Ss p v1 of
            None \<Rightarrow> ([], None)
          | Some (True, fs) \<Rightarrow> ([], Some (Valid, v1))
          | Some (False, fs) \<Rightarrow>
              (Failure (Expected (''the value to satisfy a union of `''
                          @ join_types (map stype Ss) @ ''`'') v1) p None # fs,
               Some (NotValid, v1))))"
  by (simp add: union_s_def no_entries_def no_refiner_def split: option.splits bool.splits)

lemma run_entries_Cons_threw:
  "r c (p @ [k]) v = (fs, None) \<Longrightarrow> run_entries c p ((k, v, r) # es) st val = (fs, None)"
  by simp

lemma run_entries_Cons_ok:
  "r c (p @ [k]) v = ([], Some (sti, v')) \<Longrightarrow>
    run_entries c p ((k, v, r) # es) st val = run_entries c p es st (if c then set_prop val k v' else val)"
  by (simp add: Let_def split: prod.splits)

lemma run_entries_Cons_failed:
  "r c (p @ [k]) v = (fs, Some (sti, v')) \<Longrightarrow> fs \<noteq> [] \<Longrightarrow>
    run_entries c p ((k, v, r) # es) st val =
      (case run_entries c p es (if refinement (last fs) \<noteq> None then NotRefined else NotValid) val of
         (fs2, fin) \<Rightarrow> (fs @ fs2, fin))"
  by (simp add: Let_def)

lemma run_entries_Cons_success:
  assumes "run_entries c p ((k, v, r) # es) st val = ([], Some (st', val'))"
  shows "\<exists>sti v'. r c (p @ [k]) v = ([], Some (sti, v'))
     \<and> run_entries c p es st (if c then set_prop val k v' else val) = ([], Some (st', val'))"
proof (cases "r c (p @ [k]) v")
  case (Pair fs fin)
  show ?thesis
  proof (cases fin)
    case None
    with Pair assms show ?thesis by (simp add: run_entries_Cons_threw del: run_entries.simps)
  next
    case (Some sv)
    obtain sti v' where sv: "sv = (sti, v')" by (cases sv)
    show ?thesis
    proof (cases "fs = []")
      case True
      with Pair Some sv assms show ?thesis
        by (simp add: run_entries_Cons_ok del: run_entries.simps)
    next
      case False
      with Pair Some sv assms show ?thesis
        by (simp add: run_entries_Cons_failed del: run_entries.simps split: prod.splits)
    qed
  qed
qed


lemma apply_no_refiner: "apply_refiner no_refiner p t = t"
  by (simp add: apply_refiner_def no_refiner_def split: prod.splits option.splits)

lemma array_entries_Nil: "array_entries E n [] = []"
  by (simp add: array_entries_def)

lemma array_entries_Cons:
  "array_entries E n (x # xs) = (Index n, x, run E) # array_entries E (Suc n) xs"
  by (simp add: array_entries_def)

lemma run_array:
  "run (array_s E) c p (JArr xs) = run_entries c p (array_entries E 0 xs) Valid (JArr xs)"
proof -
  have "map (map_prod id (map_prod id run)) (entries (array_s E) (JArr xs)) = array_entries E 0 xs"
    by (simp add: array_s_def array_entries_def case_prod_unfold comp_def)
  then have "pre_refine (array_s E) c p (JArr xs) = run_entries c p (array_entries E 0 xs) Valid (JArr xs)"
    by (simp add: pre_refine_def coerced_def) (simp add: array_s_def no_coercer_def is_array_def)
  moreover have "refiner (array_s E) = no_refiner"
    by (simp add: array_s_def)
  ultimately show ?thesis
    by (simp add: run_stages apply_no_refiner)
qed

lemma run_array_not_array:
  assumes "\<not> is_array v"
  shows "run (array_s E) c p v = ([Failure (Expected ''an array value'' v) p None], Some (NotValid, v))"
proof -
  have "entries (array_s E) v = []"
    using assms by (cases v) (simp_all add: array_s_def is_array_def)
  then have "pre_refine (array_s E) c p v = ([Failure (Expected ''an array value'' v) p None], Some (NotValid, v))"
    using assms by (simp add: pre_refine_def coerced_def) (simp add: array_s_def no_coercer_def)
  then show ?thesis
    by (simp add: run_stages apply_refiner_def)
qed

lemma set_prop_index:
  "length pre = n \<Longrightarrow> set_prop (JArr (pre @ x # xs)) (Index n) y = JArr (pre @ y # xs)"
  by (auto simp: set_prop_def)

lemma run_entries_array_valid:
  assumes "\<forall>i<length xs. \<exists>st. run E c (p @ [Index (n + i)]) (xs ! i) = ([], Some (st, f (xs ! i)))"
    and "length pre = n"
  shows "run_entries c p (array_entries E n xs) st0 (JArr (pre @ xs))
       = ([], Some (st0, JArr (pre @ (if c then map f xs else xs))))"
  using assms
proof (induction xs arbitrary: n pre)
  case Nil
  then show ?case by (simp add: array_entries_Nil)
next
  case (Cons x xs)
  from Cons.prems(1) have "\<exists>st. run E c (p @ [Index (n + 0)]) ((x # xs) ! 0) = ([], Some (st, f ((x # xs) ! 0)))"
    by blast
  then obtain st where x: "run E c (p @ [Index n]) x = ([], Some (st, f x))"
    by auto
  have rest: "\<forall>i<length xs. \<exists>st. run E c (p @ [Index (Suc n + i)]) (xs ! i) = ([], Some (st, f (xs ! i)))"
  proof (intro allI impI)
    fix i assume "i < length xs"
    then have "Suc i < length (x # xs)" by simp
    with Cons.prems(1) have "\<exists>st. run E c (p @ [Index (n + Suc i)]) ((x # xs) ! Suc i) = ([], Some (st, f ((x # xs) ! Suc i)))"
      by blast
    then show "\<exists>st. run E c (p @ [Index (Suc n + i)]) (xs ! i) = ([], Some (st, f (xs ! i)))"
      by simp
  qed
  have len: "length (pre @ [if c then f x else x]) = Suc n"
    using Cons.prems(2) by simp
  have step: "run_entries c p (array_entries E n (x # xs)) st0 (JArr (pre @ x # xs))
      = run_entries c p (array_entries E (Suc n) xs) st0 (JArr ((pre @ [if c then f x else x]) @ xs))"
    using Cons.prems(2)
    by (simp only: array_entries_Cons run_entries_Cons_ok [where r = "run E" and k = "Index n", OF x]) (simp add: set_prop_index)
  show ?case
    using Cons.IH [OF rest len] step by simp
qed

lemma run_entries_array_success:
  assumes "run_entries True p (array_entries E n xs) st0 (JArr (pre @ xs)) = ([], Some (st', v'))"
    and "length pre = n"
  shows "\<exists>ys. v' = JArr (pre @ ys) \<and> length ys = length xs \<and>
     (\<forall>i<length xs. \<exists>st. run E True (p @ [Index (n + i)]) (xs ! i) = ([], Some (st, ys ! i)))"
  using assms
proof (induction xs arbitrary: n pre)
  case Nil
  then show ?case by (simp add: array_entries_Nil)
next
  case (Cons x xs)
  from Cons.prems(1) have "run_entries True p ((Index n, x, run E) # array_entries E (Suc n) xs) st0
      (JArr (pre @ x # xs)) = ([], Some (st', v'))"
    by (simp only: array_entries_Cons)
  from run_entries_Cons_success [OF this]
  obtain st y where x: "run E True (p @ [Index n]) x = ([], Some (st, y))"
    and rest0: "run_entries True p (array_entries E (Suc n) xs) st0
       (set_prop (JArr (pre @ x # xs)) (Index n) y) = ([], Some (st', v'))"
    by auto
  have rest: "run_entries True p (array_entries E (Suc n) xs) st0 (JArr ((pre @ [y]) @ xs)) = ([], Some (st', v'))"
    using rest0 Cons.prems(2) by (simp add: set_prop_index)
  have len: "length (pre @ [y]) = Suc n" using Cons.prems(2) by simp
  from Cons.IH [OF rest len] obtain ys where ys: "v' = JArr ((pre @ [y]) @ ys)" "length ys = length xs"
    "\<forall>i<length xs. \<exists>st. run E True (p @ [Index (Suc n + i)]) (xs ! i) = ([], Some (st, ys ! i))"
    by blast
  show ?case
  proof (intro exI [of _ "y # ys"] conjI allI impI)
    show "v' = JArr (pre @ y # ys)" using ys(1) by simp
    show "length (y # ys) = length (x # xs)" using ys(2) by simp
    fix i assume i: "i < length (x # xs)"
    show "\<exists>st. run E True (p @ [Index (n + i)]) ((x # xs) ! i) = ([], Some (st, (y # ys) ! i))"
    proof (cases i)
      case 0
      with x show ?thesis by simp
    next
      case (Suc j)
      with i have "j < length xs" by simp
      with ys(3) have "\<exists>st. run E True (p @ [Index (Suc n + j)]) (xs ! j) = ([], Some (st, ys ! j))"
        by blast
      with Suc show ?thesis by simp
    qed
  qed
qed

lemma update_middle:
  "k \<notin> fst ` set pre \<Longrightarrow> AList.update k y (pre @ (k, x) # rest) = pre @ (k, y) # rest"
  by (induction pre) auto

lemma set_prop_field:
  "k \<notin> fst ` set pre \<Longrightarrow> set_prop (JObj (pre @ (k, x) # rest)) (Field k) y = JObj (pre @ (k, y) # rest)"
  by (simp add: set_prop_def update_middle)

lemma get_prop_JObj: "get_prop (JObj kvs) k = (case map_of kvs k of Some x \<Rightarrow> x | None \<Rightarrow> JUndefined)"
  by (simp add: get_prop_def own_props_def)

lemma set_prop_get: "set_prop (JObj kvs) (Field k) (get_prop (JObj kvs) k) = JObj kvs"
proof (cases "map_of kvs k")
  case None
  then have "k \<notin> set (map fst kvs)"
    by (simp add: map_of_eq_None_iff)
  with None show ?thesis
    by (simp add: set_prop_def get_prop_JObj)
next
  case (Some x)
  then have "AList.update k x kvs = kvs"
    by (rule update_triv)
  with Some show ?thesis
    by (simp add: set_prop_def get_prop_JObj)
qed

lemma record_entries_Nil: "record_entries K V v [] = []"
  by (simp add: record_entries_def)

lemma record_entries_Cons:
  "record_entries K V v (k # ks) =
     (Field k, JStr k, run K) # (Field k, get_prop v k, run V) # record_entries K V v ks"
  by (simp add: record_entries_def)

lemma run_record:
  assumes "is_object v"
  shows "run (record_s K V) c p v = run_entries c p (record_entries K V v (own_keys v)) Valid v"
proof -
  have "map (map_prod id (map_prod id run)) (entries (record_s K V) v) = record_entries K V v (own_keys v)"
    using assms by (simp add: record_s_def record_entries_def map_concat comp_def)
  then have "pre_refine (record_s K V) c p v = run_entries c p (record_entries K V v (own_keys v)) Valid v"
    using assms by (simp add: pre_refine_def coerced_def) (simp add: record_s_def no_coercer_def)
  moreover have "refiner (record_s K V) = no_refiner"
    by (simp add: record_s_def)
  ultimately show ?thesis
    by (simp add: run_stages apply_no_refiner)
qed

lemma run_record_not_object:
  assumes "\<not> is_object v"
  shows "run (record_s K V) c p v = ([Failure (Expected ''an object'' v) p None], Some (NotValid, v))"
proof -
  have "pre_refine (record_s K V) c p v = ([Failure (Expected ''an object'' v) p None], Some (NotValid, v))"
    using assms by (simp add: pre_refine_def coerced_def) (simp add: record_s_def no_coercer_def)
  then show ?thesis
    by (simp add: run_stages apply_refiner_def)
qed

lemma run_entries_record_valid:
  assumes "\<forall>(k, x) \<in> set kvs. \<exists>st. run V c (p @ [Field k]) x = ([], Some (st, g k x))"
    and "distinct (map fst (pre @ kvs))"
    and "\<forall>(k, x) \<in> set kvs. get_prop v0 k = x"
  shows "run_entries c p (record_entries string_s V v0 (map fst kvs)) st0 (JObj (pre @ kvs))
       = ([], Some (st0, JObj (pre @ (if c then map (\<lambda>(k, x). (k, g k x)) kvs else kvs))))"
  using assms
proof (induction kvs arbitrary: pre)
  case Nil
  then show ?case by (simp add: record_entries_Nil)
next
  case (Cons kx kvs)
  obtain k x where kx: "kx = (k, x)" by (cases kx)
  from Cons.prems(1) kx obtain st where x: "run V c (p @ [Field k]) x = ([], Some (st, g k x))"
    by auto
  have get: "get_prop v0 k = x"
    using Cons.prems(3) kx by auto
  have notin: "k \<notin> fst ` set pre"
    using Cons.prems(2) kx by auto
  have key: "run string_s c (p @ [Field k]) (JStr k) = ([], Some (Valid, JStr k))"
    by (simp add: run_string is_string_def)
  have x': "run V c (p @ [Field k]) (get_prop v0 k) = ([], Some (st, g k x))"
    using x get by simp
  have step: "run_entries c p (record_entries string_s V v0 (map fst (kx # kvs))) st0 (JObj (pre @ kx # kvs))
      = run_entries c p (record_entries string_s V v0 (map fst kvs)) st0
          (JObj ((pre @ [(k, if c then g k x else x)]) @ kvs))"
    using notin
    by (simp only: kx list.map fst_conv record_entries_Cons
          run_entries_Cons_ok [where r = "run string_s" and k = "Field k", OF key]
          run_entries_Cons_ok [where r = "run V" and k = "Field k", OF x'])
       (simp add: set_prop_field)
  have dist: "distinct (map fst ((pre @ [(k, if c then g k x else x)]) @ kvs))"
    using Cons.prems(2) kx by auto
  have "run_entries c p (record_entries string_s V v0 (map fst kvs)) st0
          (JObj ((pre @ [(k, if c then g k x else x)]) @ kvs))
      = ([], Some (st0, JObj ((pre @ [(k, if c then g k x else x)])
               @ (if c then map (\<lambda>(k, x). (k, g k x)) kvs else kvs))))"
    using Cons.prems(1,3) by (intro Cons.IH [OF _ dist]) auto
  with step kx show ?case by simp
qed

lemma get_prop_distinct:
  "distinct (map fst kvs) \<Longrightarrow> (k, x) \<in> set kvs \<Longrightarrow> get_prop (JObj kvs) k = x"
  by (simp add: get_prop_JObj)

lemma run_record_valid:
  assumes "\<forall>(k, x) \<in> set kvs. \<exists>st. run V c (p @ [Field k]) x = ([], Some (st, g k x))"
    and "distinct (map fst kvs)"
  shows "run (record_s string_s V) c p (JObj kvs)
       = ([], Some (Valid, JObj (if c then map (\<lambda>(k, x). (k, g k x)) kvs else kvs)))"
proof -
  have "\<forall>(k, x) \<in> set kvs. get_prop (JObj kvs) k = x"
    using assms(2) by (auto simp: get_prop_distinct)
  from run_entries_record_valid [where pre = "[]", OF assms(1) _ this] assms(2)
  show ?thesis
    by (simp add: run_record is_object_def own_keys_def)
qed

lemma accepts_record:
  assumes "\<forall>(k, x) \<in> set kvs. accepts V x" and "distinct (map fst kvs)"
  shows "accepts (record_s string_s V) (JObj kvs)"
  unfolding accepts_def
proof (intro allI)
  fix c p
  have "\<forall>(k, x) \<in> set kvs. \<exists>st. run V c (p @ [Field k]) x = ([], Some (st, (\<lambda>k x. x) k x))"
    using assms(1) by (auto simp: accepts_def)
  from run_record_valid [OF this assms(2)]
  show "run (record_s string_s V) c p (JObj kvs) = ([], Some (Valid, JObj kvs))"
    by (simp add: case_prod_unfold)
qed

lemma accepts_array:
  assumes "\<forall>x \<in> set xs. accepts E x"
  shows "accepts (array_s E) (JArr xs)"
  unfolding accepts_def
proof (intro allI)
  fix c p
  have "\<forall>i<length xs. \<exists>st. run E c (p @ [Index (0 + i)]) (xs ! i) = ([], Some (st, (\<lambda>x. x) (xs ! i)))"
    using assms by (auto simp: accepts_def)
  from run_entries_array_valid [where pre = "[]", OF this]
  show "run (array_s E) c p (JArr xs) = ([], Some (Valid, JArr xs))"
    by (simp add: run_array)
qed

lemma run_object:
  assumes "is_object v"
  shows "run (object_s schema) c p v =
     run_entries c p (field_entries (if c then object_spread v else v) schema
                        @ unknown_entries (if c then object_spread v else v) schema)
       Valid (if c then object_spread v else v)"
proof -
  have obj: "is_object (object_spread v)"
    by (simp add: object_spread_def is_object_def)
  have en: "\<And>w. is_object w \<Longrightarrow>
      map (map_prod id (map_prod id run)) (entries (object_s schema) w)
        = field_entries w schema @ unknown_entries w schema"
    by (simp add: object_s_def field_entries_def unknown_entries_def case_prod_unfold comp_def)
  have "pre_refine (object_s schema) c p v =
     run_entries c p (field_entries (if c then object_spread v else v) schema
                        @ unknown_entries (if c then object_spread v else v) schema)
       Valid (if c then object_spread v else v)"
  proof (cases c)
    case True
    have "coercer (object_s schema) v = Some (object_spread v)"
      using assms by (simp add: object_s_def)
    moreover have "validator (object_s schema) (object_spread v) p = Some []"
      using obj by (simp add: object_s_def)
    ultimately show ?thesis
      using True en [OF obj] by (simp add: pre_refine_def coerced_def)
  next
    case False
    have "validator (object_s schema) v p = Some []"
      using assms by (simp add: object_s_def)
    then show ?thesis
      using False en [OF assms] by (simp add: pre_refine_def coerced_def)
  qed
  moreover have "refiner (object_s schema) = no_refiner"
    by (simp add: object_s_def)
  ultimately show ?thesis
    by (simp add: run_stages apply_no_refiner)
qed

lemma object_spread_JObj: "object_spread (JObj kvs) = JObj kvs"
  by (simp add: object_spread_def own_props_def)

lemma run_object_JObj:
  "run (object_s schema) c p (JObj kvs) =
     run_entries c p (field_entries (JObj kvs) schema @ unknown_entries (JObj kvs) schema) Valid (JObj kvs)"
  by (simp add: run_object is_object_def object_spread_JObj)


lemma run_entries_fields_accept:
  assumes "\<forall>(k, s) \<in> set sch. accepts s (get_prop (JObj kvs) k)"
  shows "run_entries c p (field_entries (JObj kvs) sch) st0 (JObj kvs) = ([], Some (st0, JObj kvs))"
  using assms
proof (induction sch)
  case Nil
  then show ?case by (simp add: field_entries_def)
next
  case (Cons ks sch)
  obtain k s where ks: "ks = (k, s)" by (cases ks)
  have x: "run s c (p @ [Field k]) (get_prop (JObj kvs) k) = ([], Some (Valid, get_prop (JObj kvs) k))"
    using Cons.prems ks by (simp add: accepts_def)
  have "run_entries c p (field_entries (JObj kvs) (ks # sch)) st0 (JObj kvs)
      = run_entries c p (field_entries (JObj kvs) sch) st0 (JObj kvs)"
    unfolding ks field_entries_def list.map prod.case
    by (simp only: run_entries_Cons_ok [where r = "run s" and k = "Field k", OF x] set_prop_get if_cancel)
  then show ?case
    using Cons by simp
qed

lemma accepts_object:
  assumes "set (map fst kvs) \<subseteq> set (map fst schema)"
    and "\<forall>(k, s) \<in> set schema. accepts s (get_prop (JObj kvs) k)"
  shows "accepts (object_s schema) (JObj kvs)"
proof -
  have "filter (\<lambda>k. k \<notin> set (map fst schema)) (map fst kvs) = []"
    using assms(1) by (auto simp: filter_empty_conv)
  then have "unknown_entries (JObj kvs) schema = []"
    by (simp add: unknown_entries_def own_keys_def)
  then show ?thesis
    using run_entries_fields_accept [OF assms(2)]
    by (simp add: accepts_def run_object_JObj)
qed

lemma run_entries_all_ok:
  assumes "run_entries c p es st val = ([], Some (st', val'))" and "(k, v, r) \<in> set es"
  shows "\<exists>sti y. r c (p @ [k]) v = ([], Some (sti, y))"
  using assms
proof (induction es arbitrary: val)
  case Nil
  then show ?case by simp
next
  case (Cons e es)
  obtain k0 v0 r0 where e: "e = (k0, v0, r0)" by (cases e)
  from Cons.prems(1) e have "run_entries c p ((k0, v0, r0) # es) st val = ([], Some (st', val'))"
    by simp
  from run_entries_Cons_success [OF this]
  obtain sti y where first: "r0 c (p @ [k0]) v0 = ([], Some (sti, y))"
    and rest: "run_entries c p es st (if c then set_prop val k0 y else val) = ([], Some (st', val'))"
    by blast
  show ?case
  proof (cases "(k, v, r) = e")
    case True
    with e first show ?thesis by auto
  next
    case False
    with Cons.prems(2) have "(k, v, r) \<in> set es" by simp
    from Cons.IH [OF rest this] show ?thesis .
  qed
qed

lemma run_object_success:
  assumes "run (object_s schema) c p (JObj kvs) = ([], Some (st, v'))"
  shows "set (map fst kvs) \<subseteq> set (map fst schema)"
    and "\<forall>(k, s) \<in> set schema. \<exists>sti y. run s c (p @ [Field k]) (get_prop (JObj kvs) k) = ([], Some (sti, y))"
proof -
  from assms have es: "run_entries c p (field_entries (JObj kvs) schema @ unknown_entries (JObj kvs) schema)
      Valid (JObj kvs) = ([], Some (st, v'))"
    by (simp add: run_object_JObj)
  show "set (map fst kvs) \<subseteq> set (map fst schema)"
  proof
    fix k assume k: "k \<in> set (map fst kvs)"
    show "k \<in> set (map fst schema)"
    proof (rule ccontr)
      assume "k \<notin> set (map fst schema)"
      with k have "(Field k, get_prop (JObj kvs) k, run never_s)
          \<in> set (field_entries (JObj kvs) schema @ unknown_entries (JObj kvs) schema)"
        by (auto simp: unknown_entries_def own_keys_def)
      from run_entries_all_ok [OF es this] show False
        by (simp add: run_never)
    qed
  qed
  show "\<forall>(k, s) \<in> set schema. \<exists>sti y. run s c (p @ [Field k]) (get_prop (JObj kvs) k) = ([], Some (sti, y))"
  proof (intro ballI, clarify)
    fix k s assume "(k, s) \<in> set schema"
    then have "(Field k, get_prop (JObj kvs) k, run s)
          \<in> set (field_entries (JObj kvs) schema @ unknown_entries (JObj kvs) schema)"
      by (force simp: field_entries_def)
    from run_entries_all_ok [OF es this]
    show "\<exists>sti y. run s c (p @ [Field k]) (get_prop (JObj kvs) k) = ([], Some (sti, y))" .
  qed
qed

text \<open>The status after a run over entries is that of the last failure, if there is one.\<close>

lemma run_entries_status:
  assumes "run_entries c p es st val = (fs, Some (st', val'))"
  shows "st' = (if fs = [] then st else if refinement (last fs) \<noteq> None then NotRefined else NotValid)"
  using assms
proof (induction es arbitrary: st val fs)
  case Nil
  then show ?case by simp
next
  case (Cons e es)
  obtain k v r where e: "e = (k, v, r)" by (cases e)
  obtain fs1 fin1 where r: "r c (p @ [k]) v = (fs1, fin1)" by (cases "r c (p @ [k]) v")
  show ?case
  proof (cases fin1)
    case None
    with r e Cons.prems show ?thesis
      by (simp add: run_entries_Cons_threw del: run_entries.simps)
  next
    case (Some sv)
    obtain sti v' where sv: "sv = (sti, v')" by (cases sv)
    note r' = r [unfolded Some sv]
    show ?thesis
    proof (cases "fs1 = []")
      case True
      from r' True have "r c (p @ [k]) v = ([], Some (sti, v'))" by simp
      from run_entries_Cons_ok [where r = r and k = k and c = c, OF this, of es st val] Cons.prems e
      have "run_entries c p es st (if c then set_prop val k v' else val) = (fs, Some (st', val'))"
        by simp
      then show ?thesis by (rule Cons.IH)
    next
      case False
      obtain fs2 fin2 where rest: "run_entries c p es
          (if refinement (last fs1) \<noteq> None then NotRefined else NotValid) val = (fs2, fin2)"
        by (cases "run_entries c p es (if refinement (last fs1) \<noteq> None then NotRefined else NotValid) val")
      from run_entries_Cons_failed [where r = r and k = k and c = c, OF r' False, of es st val] rest Cons.prems e
      have fs: "fs = fs1 @ fs2" and fin: "fin2 = Some (st', val')"
        by simp_all
      from Cons.IH [OF rest [unfolded fin]]
      have "st' = (if fs2 = [] then if refinement (last fs1) \<noteq> None then NotRefined else NotValid
                   else if refinement (last fs2) \<noteq> None then NotRefined else NotValid)" .
      with fs False show ?thesis
        by (cases "fs2 = []") simp_all
    qed
  qed
qed

text \<open>
  A record whose values do not all pass: a value that passes is replaced by its validated
  form; under the key of a value that fails the record keeps the key itself, which the run
  over the key has written there.
\<close>

lemma run_entries_record_mixed:
  assumes "\<forall>(k, x) \<in> set kvs. \<exists>st. run V True (p @ [Field k]) x = (F k x, Some (st, g k x))"
    and "distinct (map fst (pre @ kvs))"
    and "\<forall>(k, x) \<in> set kvs. get_prop v0 k = x"
  shows "\<exists>st'. run_entries True p (record_entries string_s V v0 (map fst kvs)) st0 (JObj (pre @ kvs))
       = (concat (map (\<lambda>(k, x). F k x) kvs),
          Some (st', JObj (pre @ map (\<lambda>(k, x). (k, if F k x = [] then g k x else JStr k)) kvs)))"
  using assms
proof (induction kvs arbitrary: pre st0)
  case Nil
  then show ?case by (simp add: record_entries_Nil)
next
  case (Cons kx kvs)
  obtain k x where kx: "kx = (k, x)" by (cases kx)
  from Cons.prems(1) kx obtain st where x: "run V True (p @ [Field k]) x = (F k x, Some (st, g k x))"
    by auto
  have get: "get_prop v0 k = x"
    using Cons.prems(3) kx by auto
  have notin: "k \<notin> fst ` set pre"
    using Cons.prems(2) kx by auto
  have key: "run string_s True (p @ [Field k]) (JStr k) = ([], Some (Valid, JStr k))"
    by (simp add: run_string is_string_def)
  have x': "run V True (p @ [Field k]) (get_prop v0 k) = (F k x, Some (st, g k x))"
    using x get by simp
  have keystep: "run_entries True p (record_entries string_s V v0 (map fst (kx # kvs))) st0 (JObj (pre @ kx # kvs))
      = run_entries True p ((Field k, get_prop v0 k, run V) # record_entries string_s V v0 (map fst kvs)) st0
          (JObj (pre @ (k, JStr k) # kvs))"
    using notin
    by (simp only: kx list.map fst_conv record_entries_Cons
          run_entries_Cons_ok [where r = "run string_s" and k = "Field k", OF key])
       (simp add: set_prop_field)
  show ?case
  proof (cases "F k x = []")
    case True
    from x' True have ok: "run V True (p @ [Field k]) (get_prop v0 k) = ([], Some (st, g k x))"
      by simp
    have step: "run_entries True p ((Field k, get_prop v0 k, run V) # record_entries string_s V v0 (map fst kvs)) st0
          (JObj (pre @ (k, JStr k) # kvs))
        = run_entries True p (record_entries string_s V v0 (map fst kvs)) st0
          (JObj ((pre @ [(k, g k x)]) @ kvs))"
      using notin
      by (simp only: run_entries_Cons_ok [where r = "run V" and k = "Field k", OF ok])
         (simp add: set_prop_field)
    have dist: "distinct (map fst ((pre @ [(k, g k x)]) @ kvs))"
      using Cons.prems(2) kx by auto
    from Cons.IH [OF _ dist, of st0] Cons.prems(1,3)
    obtain st' where "run_entries True p (record_entries string_s V v0 (map fst kvs)) st0
          (JObj ((pre @ [(k, g k x)]) @ kvs))
        = (concat (map (\<lambda>(k, x). F k x) kvs),
          Some (st', JObj ((pre @ [(k, g k x)]) @ map (\<lambda>(k, x). (k, if F k x = [] then g k x else JStr k)) kvs)))"
      by auto
    with keystep step kx True show ?thesis
      by simp
  next
    case False
    let ?st1 = "if refinement (last (F k x)) \<noteq> None then NotRefined else NotValid"
    have dist: "distinct (map fst ((pre @ [(k, JStr k)]) @ kvs))"
      using Cons.prems(2) kx by auto
    from Cons.IH [OF _ dist, of ?st1] Cons.prems(1,3)
    obtain st' where rest: "run_entries True p (record_entries string_s V v0 (map fst kvs)) ?st1
          (JObj ((pre @ [(k, JStr k)]) @ kvs))
        = (concat (map (\<lambda>(k, x). F k x) kvs),
          Some (st', JObj ((pre @ [(k, JStr k)]) @ map (\<lambda>(k, x). (k, if F k x = [] then g k x else JStr k)) kvs)))"
      by auto
    have "run_entries True p ((Field k, get_prop v0 k, run V) # record_entries string_s V v0 (map fst kvs)) st0
          (JObj (pre @ (k, JStr k) # kvs))
        = (F k x @ concat (map (\<lambda>(k, x). F k x) kvs),
          Some (st', JObj ((pre @ [(k, JStr k)]) @ map (\<lambda>(k, x). (k, if F k x = [] then g k x else JStr k)) kvs)))"
      using rest
      by (simp only: run_entries_Cons_failed [where r = "run V" and k = "Field k", OF x' False])
         simp
    with keystep kx False show ?thesis
      by simp
  qed
qed

lemma run_record_mixed:
  assumes "\<forall>(k, x) \<in> set kvs. \<exists>st. run V True (p @ [Field k]) x = (F k x, Some (st, g k x))"
    and "distinct (map fst kvs)"
  shows "run (record_s string_s V) True p (JObj kvs)
       = (concat (map (\<lambda>(k, x). F k x) kvs),
          Some (if concat (map (\<lambda>(k, x). F k x) kvs) = [] then Valid
                else if refinement (last (concat (map (\<lambda>(k, x). F k x) kvs))) \<noteq> None then NotRefined
                else NotValid,
                JObj (map (\<lambda>(k, x). (k, if F k x = [] then g k x else JStr k)) kvs)))"
proof -
  have "\<forall>(k, x) \<in> set kvs. get_prop (JObj kvs) k = x"
    using assms(2) by (auto simp: get_prop_distinct)
  from run_entries_record_mixed [where pre = "[]" and ?st0.0 = Valid, OF assms(1) _ this] assms(2)
  obtain st' where r: "run_entries True p (record_entries string_s V (JObj kvs) (map fst kvs)) Valid (JObj kvs)
       = (concat (map (\<lambda>(k, x). F k x) kvs),
          Some (st', JObj (map (\<lambda>(k, x). (k, if F k x = [] then g k x else JStr k)) kvs)))"
    by auto
  from run_entries_status [OF r] r show ?thesis
    by (simp add: run_record is_object_def own_keys_def)
qed

section \<open>Environment entries\<close>

lemma run_entries_no_throw:
  assumes "\<forall>(k, v, r) \<in> set es. \<forall>c p. \<exists>fs sv. r c p v = (fs, Some sv)"
  shows "\<exists>fs sv. run_entries c p es st val = (fs, Some sv)"
  using assms
proof (induction es arbitrary: st val)
  case Nil
  then show ?case by simp
next
  case (Cons e es)
  obtain k v r where e: "e = (k, v, r)" by (cases e)
  from Cons.prems e obtain fs sti v' where first: "r c (p @ [k]) v = (fs, Some (sti, v'))"
    by fastforce
  have rest: "\<forall>(k, v, r) \<in> set es. \<forall>c p. \<exists>fs sv. r c p v = (fs, Some sv)"
    using Cons.prems by simp
  show ?case
  proof (cases "fs = []")
    case True
    with first have "run_entries c p ((k, v, r) # es) st val
        = run_entries c p es st (if c then set_prop val k v' else val)"
      by (simp add: run_entries_Cons_ok del: run_entries.simps)
    with Cons.IH [OF rest] e show ?thesis by simp
  next
    case False
    from Cons.IH [OF rest] obtain fs2 sv2 where
      "run_entries c p es (if refinement (last fs) \<noteq> None then NotRefined else NotValid) val = (fs2, Some sv2)"
      by blast
    with first False e show ?thesis
      by (simp add: run_entries_Cons_failed del: run_entries.simps)
  qed
qed

lemma run_entries_record_False:
  assumes "\<forall>k \<in> set ks. \<exists>st y. run V False (p @ [Field k]) (get_prop v k) = ([], Some (st, y))"
  shows "run_entries False p (record_entries string_s V v ks) st0 val = ([], Some (st0, val))"
  using assms
proof (induction ks)
  case Nil
  then show ?case by (simp add: record_entries_Nil)
next
  case (Cons k ks)
  from Cons.prems obtain st y where x: "run V False (p @ [Field k]) (get_prop v k) = ([], Some (st, y))"
    by auto
  have key: "run string_s False (p @ [Field k]) (JStr k) = ([], Some (Valid, JStr k))"
    by (simp add: run_string is_string_def)
  have "run_entries False p (record_entries string_s V v (k # ks)) st0 val
      = run_entries False p (record_entries string_s V v ks) st0 val"
    by (simp only: record_entries_Cons
          run_entries_Cons_ok [where r = "run string_s" and k = "Field k", OF key]
          run_entries_Cons_ok [where r = "run V" and k = "Field k", OF x] if_False)
  with Cons show ?case by simp
qed

lemma run_record_any:
  "is_object v \<Longrightarrow> run (record_s string_s any_s) False p v = ([], Some (Valid, v))"
  by (simp add: run_record run_entries_record_False run_any)

lemma is_one_property:
  "is_s v (refine_s (record_s string_s any_s) ''Env variable declaration'' one_property)
     = Some (is_object v \<and> length (own_keys v) = 1)"
proof (cases "is_object v")
  case True
  then have "object_keys v = Some (own_keys v)"
    by (cases v) (simp_all add: object_keys_def is_object_def)
  with True show ?thesis
    by (simp add: is_s_def validate_def run_refine run_record_any one_property_def)
next
  case False
  then show ?thesis
    by (simp add: is_s_def validate_def run_refine run_record_not_object)
qed

lemma first_property_single:
  "first_property (JObj [(k, x)]) = JObj [(''key'', JStr k), (''value'', x)]"
  by (simp add: first_property_def own_keys_def own_props_def)

lemma run_EnvDefinition_True:
  "run EnvDefinitionStruct True p v =
     (if is_object v \<and> length (own_keys v) = 1
      then run (object_s [(''key'', string_s), (''value'', unknown_s)]) True p (first_property v)
      else run (object_s [(''key'', string_s), (''value'', unknown_s)]) True p v)"
proof (cases "is_object v \<and> length (own_keys v) = 1")
  case True
  then have "is_s v (refine_s (record_s string_s any_s) ''Env variable declaration'' one_property) = Some True"
    by (simp add: is_one_property)
  with True show ?thesis
    by (simp add: EnvDefinitionStruct_def run_coerce_True)
next
  case False
  then have "is_s v (refine_s (record_s string_s any_s) ''Env variable declaration'' one_property) = Some False"
    by (simp add: is_one_property)
  with False show ?thesis
    by (auto simp add: EnvDefinitionStruct_def run_coerce_True)
qed

lemma run_EnvDefinition_False:
  "run EnvDefinitionStruct False p v = run (object_s [(''key'', string_s), (''value'', unknown_s)]) False p v"
  by (simp add: EnvDefinitionStruct_def run_coerce_False)

lemma accepts_string: "accepts string_s (JStr s)"
  by (simp add: accepts_def run_string is_string_def)

lemma accepts_unknown: "accepts unknown_s v"
  by (simp add: accepts_def run_unknown)

lemma accepts_key_value:
  assumes "set (map fst kvs) \<subseteq> {''key'', ''value''}" and "is_string (get_prop (JObj kvs) ''key'')"
  shows "accepts (object_s [(''key'', string_s), (''value'', unknown_s)]) (JObj kvs)"
proof (rule accepts_object)
  show "set (map fst kvs) \<subseteq> set (map fst [(''key'', string_s), (''value'', unknown_s :: 'a struct)])"
    using assms(1) by simp
  from assms(2) obtain s where "get_prop (JObj kvs) ''key'' = JStr s"
    by (cases "get_prop (JObj kvs) ''key''") (simp_all add: is_string_def)
  then show "\<forall>(k, s) \<in> set [(''key'', string_s), (''value'', unknown_s)]. accepts s (get_prop (JObj kvs) k)"
    by (simp add: accepts_string accepts_unknown)
qed

lemma key_value_success:
  assumes "run (object_s [(''key'', string_s), (''value'', unknown_s)]) c p (JObj kvs) = ([], Some (st, v'))"
  shows "set (map fst kvs) \<subseteq> {''key'', ''value''} \<and> is_string (get_prop (JObj kvs) ''key'')"
proof -
  from run_object_success [OF assms]
  have keys: "set (map fst kvs) \<subseteq> set (map fst [(''key'', string_s), (''value'', unknown_s :: 'a struct)])"
    and "\<exists>sti y. run string_s c (p @ [Field ''key'']) (get_prop (JObj kvs) ''key'') = ([], Some (sti, y))"
    by auto
  then show ?thesis
    by (auto simp: run_string split: if_splits)
qed

lemma key_value_no_throw:
  "\<exists>fs sv. run (object_s [(''key'', string_s), (''value'', unknown_s)]) c p (JObj kvs) = (fs, Some sv)"
  unfolding run_object_JObj
  by (rule run_entries_no_throw)
     (auto simp: field_entries_def unknown_entries_def run_string run_unknown run_never)

text \<open>The element struct of an env sequence, on each form of entry.\<close>

lemma run_entry_string:
  "run (union_s [string_s, EnvDefinitionStruct]) c p (JStr s) = ([], Some (Valid, JStr s))"
  by (simp add: run_union validate_def run_string is_string_def)

lemma string_rejects_object:
  "run string_s c p (JObj kvs) = ([Failure (Expected ''a string'' (JObj kvs)) p None], Some (NotValid, JObj kvs))"
  by (simp add: run_string is_string_def)

lemma run_entry_accepted:
  assumes "accepts (object_s [(''key'', string_s), (''value'', unknown_s)]) (JObj kvs)"
  shows "run (union_s [string_s, EnvDefinitionStruct]) False p (JObj kvs) = ([], Some (Valid, JObj kvs))"
  using assms
  by (simp add: run_union string_rejects_object run_EnvDefinition_False accepts_def)

lemma run_entry_single:
  "run (union_s [string_s, EnvDefinitionStruct]) True p (JObj [(k, x)])
     = ([], Some (Valid, JObj [(''key'', JStr k), (''value'', x)]))"
proof -
  have acc: "accepts (object_s [(''key'', string_s), (''value'', unknown_s)])
      (JObj [(''key'', JStr k), (''value'', x)])"
    by (rule accepts_key_value) (simp_all add: get_prop_JObj is_string_def)
  have "run EnvDefinitionStruct True [] (JObj [(k, x)]) = ([], Some (Valid, JObj [(''key'', JStr k), (''value'', x)]))"
    using acc by (simp add: run_EnvDefinition_True is_object_def own_keys_def first_property_single accepts_def)
  then have "union_coercer [string_s, EnvDefinitionStruct] (JObj [(k, x)])
      = Some (JObj [(''key'', JStr k), (''value'', x)])"
    by (simp add: validate_def string_rejects_object)
  then show ?thesis
    using run_entry_accepted [OF acc, of p]
    by (simp add: run_union)
qed

lemma run_entry_rejected:
  assumes "\<not> (set (map fst kvs) \<subseteq> {''key'', ''value''} \<and> is_string (get_prop (JObj kvs) ''key''))"
    and "length kvs \<noteq> 1"
  shows "\<exists>fs. fs \<noteq> [] \<and>
     run (union_s [string_s, EnvDefinitionStruct]) True p (JObj kvs) = (fs, Some (NotValid, JObj kvs))"
proof -
  have rejected: "\<exists>f fs sv. run (object_s [(''key'', string_s), (''value'', unknown_s)]) c q (JObj kvs)
      = (f # fs, Some sv)" for c q
  proof -
    obtain fs sv where r: "run (object_s [(''key'', string_s), (''value'', unknown_s)]) c q (JObj kvs) = (fs, Some sv)"
      using key_value_no_throw by blast
    obtain st v' where sv: "sv = (st, v')" by (cases sv)
    have "fs \<noteq> []"
      using key_value_success [of c q kvs st v'] r sv assms(1) by auto
    then show ?thesis
      using r by (cases fs) auto
  qed
  have one: "\<not> (is_object (JObj kvs) \<and> length (own_keys (JObj kvs)) = 1)"
    using assms(2) by (simp add: own_keys_def)
  obtain f fs sv where "run EnvDefinitionStruct True [] (JObj kvs) = (f # fs, Some sv)"
    using rejected [of True "[]"] one by (auto simp: run_EnvDefinition_True)
  then have co: "union_coercer [string_s, EnvDefinitionStruct] (JObj kvs) = Some (JObj kvs)"
    by (simp add: validate_def string_rejects_object)
  obtain f2 fs2 sv2 where "run EnvDefinitionStruct False p (JObj kvs) = (f2 # fs2, Some sv2)"
    using rejected [of False p] by (auto simp: run_EnvDefinition_False)
  then have "union_failures [string_s, EnvDefinitionStruct] p (JObj kvs)
      = Some (False, Failure (Expected ''a string'' (JObj kvs)) p None # f2 # fs2)"
    by (simp add: string_rejects_object)
  with co show ?thesis
    by (simp add: run_union)
qed

text \<open>
  Claim C7, as the code has it. An entry in object form with exactly one own key \<open>k\<close>
  normalizes to \<^verbatim>\<open>{key: k, value: <its value>}\<close>. An object with another number of own
  keys is accepted, unchanged, exactly when its own keys are \<^verbatim>\<open>key\<close> and \<^verbatim>\<open>value\<close> and
  \<^verbatim>\<open>key\<close> holds a string; every other object makes validation fail.
\<close>

theorem env_entry_object_forms:
  assumes "distinct (map fst kvs)"
  shows "(\<forall>k x. kvs = [(k, x)] \<longrightarrow>
            run (union_s [string_s, EnvDefinitionStruct]) True p (JObj kvs)
              = ([], Some (Valid, JObj [(''key'', JStr k), (''value'', x)])))
     \<and> (length kvs \<noteq> 1 \<longrightarrow>
           (if set (map fst kvs) = {''key'', ''value''} \<and> is_string (get_prop (JObj kvs) ''key'')
            then run (union_s [string_s, EnvDefinitionStruct]) True p (JObj kvs) = ([], Some (Valid, JObj kvs))
            else \<exists>fs. fs \<noteq> [] \<and>
                   run (union_s [string_s, EnvDefinitionStruct]) True p (JObj kvs)
                     = (fs, Some (NotValid, JObj kvs))))"
proof (intro conjI allI impI)
  fix k x assume "kvs = [(k, x)]"
  then show "run (union_s [string_s, EnvDefinitionStruct]) True p (JObj kvs)
      = ([], Some (Valid, JObj [(''key'', JStr k), (''value'', x)]))"
    by (simp add: run_entry_single)
next
  assume len: "length kvs \<noteq> 1"
  show "if set (map fst kvs) = {''key'', ''value''} \<and> is_string (get_prop (JObj kvs) ''key'')
        then run (union_s [string_s, EnvDefinitionStruct]) True p (JObj kvs) = ([], Some (Valid, JObj kvs))
        else \<exists>fs. fs \<noteq> [] \<and>
               run (union_s [string_s, EnvDefinitionStruct]) True p (JObj kvs) = (fs, Some (NotValid, JObj kvs))"
  proof (cases "set (map fst kvs) = {''key'', ''value''} \<and> is_string (get_prop (JObj kvs) ''key'')")
    case True
    then have acc: "accepts (object_s [(''key'', string_s), (''value'', unknown_s)]) (JObj kvs)"
      by (intro accepts_key_value) auto
    have one: "\<not> (is_object (JObj kvs) \<and> length (own_keys (JObj kvs)) = 1)"
      using len by (simp add: own_keys_def)
    have "run EnvDefinitionStruct True [] (JObj kvs) = ([], Some (Valid, JObj kvs))"
      using acc one by (auto simp: run_EnvDefinition_True accepts_def)
    then have "union_coercer [string_s, EnvDefinitionStruct] (JObj kvs) = Some (JObj kvs)"
      by (simp add: validate_def string_rejects_object)
    then have "run (union_s [string_s, EnvDefinitionStruct]) True p (JObj kvs) = ([], Some (Valid, JObj kvs))"
      using run_entry_accepted [OF acc, of p] by (simp add: run_union)
    with True show ?thesis by simp
  next
    case False
    have "\<not> (set (map fst kvs) \<subseteq> {''key'', ''value''} \<and> is_string (get_prop (JObj kvs) ''key''))"
    proof
      assume good: "set (map fst kvs) \<subseteq> {''key'', ''value''} \<and> is_string (get_prop (JObj kvs) ''key'')"
      then have "map_of kvs ''key'' \<noteq> None"
        by (auto simp: get_prop_JObj is_string_def split: option.splits)
      then have key: "''key'' \<in> set (map fst kvs)"
        by (simp add: map_of_eq_None_iff)
      have "length kvs = card (set (map fst kvs))"
        using distinct_card [OF assms] by simp
      also have "\<dots> \<le> card {''key'', ''value''}"
        using good by (intro card_mono) auto
      finally have "length kvs \<le> 2" by simp
      moreover have "length kvs \<noteq> 0" using key by auto
      ultimately have two: "length kvs = 2" using len by linarith
      have "card (set (map fst kvs)) = 2"
        using distinct_card [OF assms] two by simp
      then have "set (map fst kvs) = {''key'', ''value''}"
        using good by (intro card_subset_eq) auto
      with good False show False by simp
    qed
    from run_entry_rejected [OF this len, of p] False show ?thesis
      by (simp only: if_False)
  qed
qed


theorem env_entry_object_forms_witness:
  "distinct (map fst [(''FOO'', JStr ''1'' :: unit jsval)])
   \<and> run (union_s [string_s, EnvDefinitionStruct]) True [] (JObj [(''FOO'', JStr ''1'' :: unit jsval)])
       = ([], Some (Valid, JObj [(''key'', JStr ''FOO''), (''value'', JStr ''1'')]))
   \<and> distinct (map fst ([] :: (string \<times> unit jsval) list))
   \<and> length ([] :: (string \<times> unit jsval) list) \<noteq> 1
   \<and> (\<exists>fs. fs \<noteq> [] \<and>
         run (union_s [string_s, EnvDefinitionStruct]) True [] (JObj [] :: unit jsval)
           = (fs, Some (NotValid, JObj [])))"
  using env_entry_object_forms [of "[(''FOO'', JStr ''1'' :: unit jsval)]" "[]"]
    env_entry_object_forms [of "[] :: (string \<times> unit jsval) list" "[]"]
  by simp

text \<open>
  Claim C7 as stated fails: an object with the two own keys \<^verbatim>\<open>key\<close> and \<^verbatim>\<open>value\<close> is
  accepted.
\<close>

theorem env_entry_two_keys_counterexample:
  "length [(''key'', JStr ''X''), (''value'', JStr ''1'' :: unit jsval)] = 2
   \<and> run (union_s [string_s, EnvDefinitionStruct]) True []
         (JObj [(''key'', JStr ''X''), (''value'', JStr ''1'' :: unit jsval)])
       = ([], Some (Valid, JObj [(''key'', JStr ''X''), (''value'', JStr ''1'')]))"
  by code_simp

section \<open>Environment sequences\<close>

lemma set_prop_defined:
  assumes "val \<noteq> JUndefined"
  shows "set_prop val k y \<noteq> JUndefined"
proof (cases val)
  case (JObj kvs)
  then show ?thesis by (simp add: set_prop_def Let_def)
next
  case (JArr xs)
  show ?thesis
  proof (cases k)
    case (Field f)
    with JArr show ?thesis
      by (cases "key_index xs f") (simp_all add: set_prop_def)
  next
    case (Index i)
    with JArr show ?thesis by (simp add: set_prop_def)
  qed
qed (insert assms, simp_all add: set_prop_def)

lemma run_entries_defined:
  assumes "run_entries c p es st val = (fs, Some (st', val'))" and "val \<noteq> JUndefined"
  shows "val' \<noteq> JUndefined"
  using assms
proof (induction es arbitrary: st val fs)
  case Nil
  then show ?case by simp
next
  case (Cons e es)
  obtain k v r where e: "e = (k, v, r)" by (cases e)
  obtain fs1 fin1 where first: "r c (p @ [k]) v = (fs1, fin1)" by (cases "r c (p @ [k]) v")
  show ?case
  proof (cases fin1)
    case None
    with first e Cons.prems(1) show ?thesis
      by (simp add: run_entries_Cons_threw del: run_entries.simps)
  next
    case (Some sv)
    obtain sti y where sv: "sv = (sti, y)" by (cases sv)
    show ?thesis
    proof (cases "fs1 = []")
      case True
      with first Some sv e Cons.prems(1)
      have rest: "run_entries c p es st (if c then set_prop val k y else val) = (fs, Some (st', val'))"
        by (simp add: run_entries_Cons_ok del: run_entries.simps)
      have "(if c then set_prop val k y else val) \<noteq> JUndefined"
        using Cons.prems(2) by (simp add: set_prop_defined)
      from Cons.IH [OF rest this] show ?thesis .
    next
      case False
      obtain fs2 fin2 where rest: "run_entries c p es
          (if refinement (last fs1) \<noteq> None then NotRefined else NotValid) val = (fs2, fin2)"
        by (cases "run_entries c p es (if refinement (last fs1) \<noteq> None then NotRefined else NotValid) val")
      with first Some sv e False Cons.prems(1) have "fin2 = Some (st', val')"
        by (simp add: run_entries_Cons_failed del: run_entries.simps)
      with rest have "run_entries c p es
          (if refinement (last fs1) \<noteq> None then NotRefined else NotValid) val = (fs2, Some (st', val'))"
        by simp
      from Cons.IH [OF this Cons.prems(2)] show ?thesis .
    qed
  qed
qed

lemma optional_sel:
  "coercer (optional_s s) = coercer s"
  "entries (optional_s s) = entries s"
  "validator (optional_s s) w p = (if w = JUndefined then Some [] else validator s w p)"
  "refiner (optional_s s) w p = (if w = JUndefined then ([], False) else refiner s w p)"
  by (simp_all add: optional_s_def)

lemma coerced_optional: "coerced (optional_s s) c v = coerced s c v"
  by (simp add: coerced_def optional_sel)

lemma run_optional:
  assumes "coerced s c v \<noteq> Some JUndefined"
  shows "run (optional_s s) c p v = run s c p v"
proof (cases "coerced s c v")
  case None
  then have "pre_refine (optional_s s) c p v = ([], None)" "pre_refine s c p v = ([], None)"
    by (simp_all add: pre_refine_def coerced_optional)
  then show ?thesis
    by (simp add: run_stages apply_refiner_def)
next
  case (Some v1)
  note co = Some
  with assms have v1: "v1 \<noteq> JUndefined" by auto
  show ?thesis
  proof (cases "validator s v1 p")
    case None
    with co v1 have "pre_refine (optional_s s) c p v = ([], None)" "pre_refine s c p v = ([], None)"
      by (simp_all add: pre_refine_def coerced_optional optional_sel)
    then show ?thesis
      by (simp add: run_stages apply_refiner_def)
  next
    case (Some vf)
    note vf = Some
    obtain ef fin where es: "run_entries c p (map (map_prod id (map_prod id run)) (entries s v1))
        (if vf = [] then Valid else NotValid) v1 = (ef, fin)"
      by (cases "run_entries c p (map (map_prod id (map_prod id run)) (entries s v1))
        (if vf = [] then Valid else NotValid) v1")
    have t: "pre_refine s c p v = (vf @ ef, fin)" "pre_refine (optional_s s) c p v = (vf @ ef, fin)"
      using co vf es v1 by (simp_all add: pre_refine_def coerced_optional optional_sel)
    show ?thesis
    proof (cases fin)
      case None
      with t show ?thesis
        by (simp add: run_stages apply_refiner_def)
    next
      case (Some sv)
      obtain st v2 where sv: "sv = (st, v2)" by (cases sv)
      from es Some sv have "run_entries c p (map (map_prod id (map_prod id run)) (entries s v1))
        (if vf = [] then Valid else NotValid) v1 = (ef, Some (st, v2))"
        by simp
      from run_entries_defined [OF this v1] have "v2 \<noteq> JUndefined" .
      with t Some sv show ?thesis
        by (simp add: run_stages apply_refiner_def optional_sel)
    qed
  qed
qed

lemma run_optional_undefined:
  assumes "coercer s JUndefined = Some JUndefined" and "entries s JUndefined = []"
  shows "run (optional_s s) c p JUndefined = ([], Some (Valid, JUndefined))"
proof -
  have "pre_refine (optional_s s) c p JUndefined = ([], Some (Valid, JUndefined))"
    using assms by (simp add: pre_refine_def coerced_def optional_sel)
  then show ?thesis
    by (simp add: run_stages apply_refiner_def optional_sel)
qed


lemma canonical_entry_length:
  assumes "is_canonical_entry (JObj kvs)"
  shows "length kvs = 2"
proof -
  from assms have d: "distinct (map fst kvs)" and k: "set (map fst kvs) = {''key'', ''value''}"
    by (simp_all add: is_canonical_entry_def)
  from distinct_card [OF d] k show ?thesis by simp
qed

lemma run_entry_canonical:
  assumes "is_canonical_entry e"
  shows "run (union_s [string_s, EnvDefinitionStruct]) True p e = ([], Some (Valid, e))"
proof -
  from assms obtain kvs where e: "e = JObj kvs"
    by (cases e) (simp_all add: is_canonical_entry_def)
  from assms e have acc: "accepts (object_s [(''key'', string_s), (''value'', unknown_s)]) (JObj kvs)"
    by (intro accepts_key_value) (simp_all add: is_canonical_entry_def)
  have "length kvs = 2"
    using canonical_entry_length assms e by blast
  then have one: "\<not> (is_object (JObj kvs) \<and> length (own_keys (JObj kvs)) = 1)"
    by (simp add: own_keys_def)
  have "run EnvDefinitionStruct True [] (JObj kvs) = ([], Some (Valid, JObj kvs))"
    using acc one by (auto simp: run_EnvDefinition_True accepts_def)
  then have "union_coercer [string_s, EnvDefinitionStruct] (JObj kvs) = Some (JObj kvs)"
    by (simp add: validate_def string_rejects_object)
  then show ?thesis
    using run_entry_accepted [OF acc, of p] e by (simp add: run_union)
qed

lemma single_entry: "length kvs = 1 \<Longrightarrow> \<exists>k x. kvs = [(k, x)]"
  by (cases kvs) auto

lemma run_entry_form:
  assumes "is_env_entry e"
  shows "run (union_s [string_s, EnvDefinitionStruct]) True p e = ([], Some (Valid, normal_entry e))"
proof (cases e)
  case (JStr s)
  then show ?thesis by (simp add: run_entry_string normal_entry_def)
next
  case (JObj kvs)
  show ?thesis
  proof (cases "length kvs = 1")
    case True
    then obtain k x where "kvs = [(k, x)]" using single_entry by blast
    with JObj show ?thesis by (simp add: run_entry_single normal_entry_def)
  next
    case False
    with assms JObj have can: "is_canonical_entry e" by (simp add: is_env_entry_def)
    with JObj have "length kvs = 2" using canonical_entry_length by blast
    then obtain a b where "kvs = [a, b]"
      by (cases kvs; cases "tl kvs") auto
    then have "normal_entry e = e"
      using JObj by (cases a) (simp add: normal_entry_def)
    with run_entry_canonical [OF can] show ?thesis by simp
  qed
qed (insert assms, simp_all add: is_env_entry_def)

lemma env_key_normal:
  assumes "is_env_entry e"
  shows "env_key (normal_entry e) = Some (JStr (entry_key e))"
proof (cases e)
  case (JStr s)
  then show ?thesis by (simp add: normal_entry_def env_key_def entry_key_def is_string_def)
next
  case (JObj kvs)
  show ?thesis
  proof (cases "length kvs = 1")
    case True
    then obtain k x where "kvs = [(k, x)]" using single_entry by blast
    with JObj show ?thesis
      by (simp add: normal_entry_def env_key_def entry_key_def is_string_def get_member_def get_prop_JObj)
  next
    case False
    with assms JObj have can: "is_canonical_entry e" by (simp add: is_env_entry_def)
    with JObj have "length kvs = 2" using canonical_entry_length by blast
    then obtain a b where ab: "kvs = [a, b]"
      by (cases kvs; cases "tl kvs") auto
    from can JObj obtain s where s: "get_prop e ''key'' = JStr s"
      by (cases "get_prop e ''key''") (simp_all add: is_canonical_entry_def is_string_def)
    have "normal_entry e = e" "entry_key e = s"
      using JObj ab s by (cases a, simp add: normal_entry_def, cases a, simp add: entry_key_def)
    then show ?thesis
      using JObj s by (simp add: env_key_def is_string_def get_member_def)
  qed
qed (insert assms, simp_all add: is_env_entry_def)


lemma entry_key_normal:
  assumes "is_env_entry e"
  shows "entry_key (normal_entry e) = entry_key e"
proof (cases e)
  case (JObj kvs)
  show ?thesis
  proof (cases "length kvs = 1")
    case True
    then obtain k x where "kvs = [(k, x)]" using single_entry by blast
    with JObj show ?thesis
      by (simp add: normal_entry_def entry_key_def get_prop_JObj)
  next
    case False
    with assms JObj have "is_canonical_entry e" by (simp add: is_env_entry_def)
    with JObj have "length kvs = 2" using canonical_entry_length by blast
    then obtain a b where "kvs = [a, b]"
      by (cases kvs; cases "tl kvs") auto
    then have "normal_entry e = e"
      using JObj by (cases a) (simp add: normal_entry_def)
    then show ?thesis by simp
  qed
qed (simp_all add: normal_entry_def)

lemma includes_with_env:
  assumes "\<forall>y \<in> set res. env_key y = Some (JStr (entry_key y))"
    and "env_key x = Some (JStr (entry_key x))"
  shows "includes_with env_eq res x = Some (entry_key x \<in> entry_key ` set res)"
  using assms(1)
proof (induction res)
  case Nil
  then show ?case by simp
next
  case (Cons y res)
  then have "env_eq x y = Some (entry_key x = entry_key y)"
    using assms(2) by (simp add: env_eq_def strict_equals_def is_object_def)
  with Cons show ?case by (cases "entry_key x = entry_key y") auto
qed

lemma base_uniq_env:
  assumes "\<forall>y \<in> set (res @ ys). env_key y = Some (JStr (entry_key y))"
  shows "\<exists>u. base_uniq env_eq ys res = Some u \<and> length u \<le> length res + length ys
     \<and> (length u = length res + length ys
          \<longleftrightarrow> distinct (map entry_key ys) \<and> entry_key ` set ys \<inter> entry_key ` set res = {})"
  using assms
proof (induction ys arbitrary: res)
  case Nil
  then show ?case by simp
next
  case (Cons x ys)
  have inc: "includes_with env_eq res x = Some (entry_key x \<in> entry_key ` set res)"
    using Cons.prems by (intro includes_with_env) auto
  show ?case
  proof (cases "entry_key x \<in> entry_key ` set res")
    case True
    have "\<forall>y \<in> set (res @ ys). env_key y = Some (JStr (entry_key y))"
      using Cons.prems by auto
    from Cons.IH [OF this] obtain u where u: "base_uniq env_eq ys res = Some u"
      "length u \<le> length res + length ys"
      by blast
    with inc True show ?thesis by auto
  next
    case False
    have "\<forall>y \<in> set ((res @ [x]) @ ys). env_key y = Some (JStr (entry_key y))"
      using Cons.prems by auto
    from Cons.IH [OF this] obtain u where u: "base_uniq env_eq ys (res @ [x]) = Some u"
      "length u \<le> length (res @ [x]) + length ys"
      "length u = length (res @ [x]) + length ys
         \<longleftrightarrow> distinct (map entry_key ys) \<and> entry_key ` set ys \<inter> entry_key ` set (res @ [x]) = {}"
      by blast
    have "base_uniq env_eq (x # ys) res = Some u"
      using inc False u(1) by simp
    moreover have "length u \<le> length res + length (x # ys)"
      using u(2) by simp
    moreover have "length u = length res + length (x # ys)
        \<longleftrightarrow> distinct (map entry_key (x # ys)) \<and> entry_key ` set (x # ys) \<inter> entry_key ` set res = {}"
      using u(3) False by auto
    ultimately show ?thesis by blast
  qed
qed

lemma unique_check_env:
  assumes "\<forall>y \<in> set ys. env_key y = Some (JStr (entry_key y))"
  shows "unique_check (Some env_eq) (JArr ys)
     = (if distinct (map entry_key ys) then ([], False) else ([duplicated], False))"
proof -
  from base_uniq_env [where res = "[]" and ys = ys] assms
  obtain u where "base_uniq env_eq ys [] = Some u"
    "length u = length ys \<longleftrightarrow> distinct (map entry_key ys)"
    by auto
  then show ?thesis
    by (simp add: unique_check_def uniqWith_def)
qed

lemma run_entry_array:
  assumes "\<forall>e \<in> set xs. is_env_entry e"
  shows "run (array_s (union_s [string_s, EnvDefinitionStruct])) True p (JArr xs)
     = ([], Some (Valid, JArr (map normal_entry xs)))"
proof -
  have "\<forall>i<length xs. \<exists>st. run (union_s [string_s, EnvDefinitionStruct]) True (p @ [Index (0 + i)]) (xs ! i)
      = ([], Some (st, normal_entry (xs ! i)))"
    using assms by (simp add: run_entry_form)
  from run_entries_array_valid [where pre = "[]", OF this]
  show ?thesis
    by (simp add: run_array)
qed

lemma run_EnvArray_entries:
  assumes "\<forall>e \<in> set xs. is_env_entry e"
  shows "run EnvArrayStruct True p (JArr xs) =
     (if distinct (map entry_key xs) then ([], Some (Valid, JArr (map normal_entry xs)))
      else ([Failure duplicated p (Some ''unique'')], Some (NotRefined, JArr (map normal_entry xs))))"
proof -
  have "\<forall>y \<in> set (map normal_entry xs). env_key y = Some (JStr (entry_key y))"
    using assms by (auto simp: env_key_normal entry_key_normal)
  from unique_check_env [OF this]
  have "unique_check (Some env_eq) (JArr (map normal_entry xs))
      = (if distinct (map entry_key xs) then ([], False) else ([duplicated], False))"
    using assms by (simp add: comp_def entry_key_normal cong: map_cong)
  then show ?thesis
    by (simp add: EnvArrayStruct_def unique_def run_refine run_entry_array [OF assms])
qed

lemma coerced_EnvArray: "coerced EnvArrayStruct c v = Some v"
  by (simp add: coerced_def EnvArrayStruct_def unique_def refine_s_def array_s_def no_coercer_def)

lemma run_optional_EnvArray:
  "v \<noteq> JUndefined \<Longrightarrow> run (optional_s EnvArrayStruct) c p v = run EnvArrayStruct c p v"
  by (rule run_optional) (simp add: coerced_EnvArray)




text \<open>
  Claim C1, as the code has it. Whenever the validation of an environment sequence
  succeeds, a bare string entry is still the same bare string at its position of the
  result, and a single-key object \<^verbatim>\<open>{FOO: v}\<close> has become \<^verbatim>\<open>{key: "FOO", value: v}\<close>.
\<close>

theorem bare_string_entries_stay:
  assumes "S = EnvArrayStruct \<or> S = optional_s EnvArrayStruct"
    and "run S True p (JArr xs) = ([], Some (Valid, v))"
  shows "\<exists>ys. v = JArr ys \<and> length ys = length xs \<and>
     (\<forall>i<length xs.
        (\<forall>s. xs ! i = JStr s \<longrightarrow> ys ! i = JStr s) \<and>
        (\<forall>k x. xs ! i = JObj [(k, x)] \<longrightarrow> ys ! i = JObj [(''key'', JStr k), (''value'', x)]))"
proof -
  have run: "run EnvArrayStruct True p (JArr xs) = ([], Some (Valid, v))"
    using assms by (auto simp: run_optional_EnvArray)
  obtain fs fin where arr: "run (array_s (union_s [string_s, EnvDefinitionStruct])) True p (JArr xs) = (fs, fin)"
    by (cases "run (array_s (union_s [string_s, EnvDefinitionStruct])) True p (JArr xs)")
  have "\<exists>st. fs = [] \<and> fin = Some (st, v)"
  proof (cases fin)
    case None
    with run arr show ?thesis
      by (simp add: EnvArrayStruct_def unique_def run_refine)
  next
    case (Some sv)
    obtain st v2 where sv: "sv = (st, v2)" by (cases sv)
    obtain ms threw where ms: "unique_check (Some env_eq) v2 = (ms, threw)"
      by (cases "unique_check (Some env_eq) v2")
    from run arr Some sv ms show ?thesis
      by (cases "st = NotValid"; cases threw) (simp_all add: EnvArrayStruct_def unique_def run_refine)
  qed
  then obtain st where "run_entries True p (array_entries (union_s [string_s, EnvDefinitionStruct]) 0 xs)
      Valid (JArr ([] @ xs)) = ([], Some (st, v))"
    using arr by (auto simp: run_array)
  from run_entries_array_success [OF this]
  obtain ys where ys: "v = JArr ys" "length ys = length xs"
    "\<forall>i<length xs. \<exists>st. run (union_s [string_s, EnvDefinitionStruct]) True (p @ [Index (0 + i)]) (xs ! i)
        = ([], Some (st, ys ! i))"
    by auto
  show ?thesis
  proof (intro exI [of _ ys] conjI allI impI)
    show "v = JArr ys" by (rule ys(1))
    show "length ys = length xs" by (rule ys(2))
  next
    fix i s assume "i < length xs" "xs ! i = JStr s"
    with ys(3) show "ys ! i = JStr s"
      by (auto simp: run_entry_string)
  next
    fix i k x assume "i < length xs" "xs ! i = JObj [(k, x)]"
    with ys(3) show "ys ! i = JObj [(''key'', JStr k), (''value'', x)]"
      by (auto simp: run_entry_single)
  qed
qed

section \<open>Bare strings in a sequence\<close>

theorem bare_string_entries_stay_witness:
  "run EnvArrayStruct True [Field ''env''] (JArr [JStr ''FOO'', JObj [(''BAR'', JStr ''1'')] :: unit jsval])
     = ([], Some (Valid, JArr [JStr ''FOO'', JObj [(''key'', JStr ''BAR''), (''value'', JStr ''1'')]]))
   \<and> (\<exists>ys. JArr [JStr ''FOO'', JObj [(''key'', JStr ''BAR''), (''value'', JStr ''1'')] :: unit jsval] = JArr ys
         \<and> length ys = 2 \<and> ys ! 0 = JStr ''FOO''
         \<and> ys ! 1 = JObj [(''key'', JStr ''BAR''), (''value'', JStr ''1'')])"
proof -
  have h: "run EnvArrayStruct True [Field ''env''] (JArr [JStr ''FOO'', JObj [(''BAR'', JStr ''1'')] :: unit jsval])
     = ([], Some (Valid, JArr [JStr ''FOO'', JObj [(''key'', JStr ''BAR''), (''value'', JStr ''1'')]]))"
    by code_simp
  from bare_string_entries_stay [OF _ h] h show ?thesis
    by simp
qed

text \<open>
  Claim C1 as stated fails: \<^verbatim>\<open>env: ["FOO"]\<close> validates to \<^verbatim>\<open>env: ["FOO"]\<close>, not to the
  entry \<^verbatim>\<open>{key: "FOO", value: undefined}\<close> that \<^verbatim>\<open>env: [{FOO: undefined}]\<close> validates to.
\<close>

theorem bare_string_not_canonical_counterexample:
  "validate (example_builds (JArr [JStr ''FOO''])) BuildTypesStruct True
     = VOk (example_builds (JArr [JStr ''FOO'']))
   \<and> validate (example_builds (JArr [JObj [(''FOO'', JUndefined)]])) BuildTypesStruct True
     = VOk (example_builds (JArr [JObj [(''key'', JStr ''FOO''), (''value'', JUndefined)]]))
   \<and> example_builds (JArr [JStr ''FOO''])
     \<noteq> example_builds (JArr [JObj [(''key'', JStr ''FOO''), (''value'', JUndefined)]])"
  by code_simp

section \<open>Assets\<close>

lemma run_object_concrete:
  "run (object_s schema) c p (JObj kvs) =
     run_entries c p (map (\<lambda>(k, s). (Field k, get_prop (JObj kvs) k, run s)) schema
        @ map (\<lambda>k. (Field k, get_prop (JObj kvs) k, run never_s))
            (filter (\<lambda>k. k \<notin> set (map fst schema)) (map fst kvs))) Valid (JObj kvs)"
  by (simp add: run_object_JObj field_entries_def unknown_entries_def own_keys_def)

lemma accepts_run: "accepts s v \<Longrightarrow> run s c p v = ([], Some (Valid, v))"
  by (simp add: accepts_def)

text \<open>
  \<^verbatim>\<open>ExclusiveIncludeAssetStruct\<close>, which the module builds and never uses, does turn a
  bare string into the object form.
\<close>

lemma accepts_exclusive:
  "accepts (object_s [(''exclusiveInclude'', string_s)]) (JObj [(''exclusiveInclude'', JStr s)])"
  by (rule accepts_object) (simp_all add: get_prop_JObj accepts_string)

lemma run_Exclusive_string:
  "run ExclusiveIncludeAssetStruct True p (JStr s :: 'n jsval) = ([], Some (Valid, JObj [(''exclusiveInclude'', JStr s)]))"
proof -
  have cond: "is_s (JStr s :: 'n jsval) string_s = Some True"
    by (simp add: is_s_def validate_def run_string is_string_def)
  have acc: "run (object_s [(''exclusiveInclude'', string_s)]) True p (JObj [(''exclusiveInclude'', JStr s)] :: 'n jsval)
      = ([], Some (Valid, JObj [(''exclusiveInclude'', JStr s)]))"
    by (rule accepts_run [OF accepts_exclusive])
  show ?thesis
    by (simp add: ExclusiveIncludeAssetStruct_def run_coerce_True cond acc)
qed

text \<open>The \<open>assets\<close> field lets \<^verbatim>\<open>undefined\<close> through and throws on every other value.\<close>

lemma optional_Asset:
  "optional_s (AssetStruct :: 'n struct) = Struct [] no_coercer
     (\<lambda>v p. if v = JUndefined then Some [] else None) no_entries
     (\<lambda>v p. if v = JUndefined then ([], False) else ([], True))"
  by (simp add: optional_s_def AssetStruct_def undefined_s_def fun_eq_iff cong: if_cong)

lemma run_optional_Asset_undefined:
  "run (optional_s AssetStruct) c p (JUndefined :: 'n jsval) = ([], Some (Valid, JUndefined))"
  by (simp add: optional_Asset no_coercer_def no_entries_def)

lemma run_optional_Asset_defined:
  assumes "v \<noteq> JUndefined"
  shows "run (optional_s AssetStruct) c p v = ([], None)"
  using assms by (simp add: optional_Asset no_coercer_def)

lemma run_Feature_assets:
  assumes "a \<noteq> JUndefined"
  shows "run FeatureStruct True p (JObj [(''assets'', a)]) = ([], None)"
proof -
  have e: "run (optional_s EnvArrayStruct) True (p @ [Field ''env'']) (JUndefined :: 'a jsval)
      = ([], Some (Valid, JUndefined))"
    by (rule run_optional_undefined)
       (simp_all add: EnvArrayStruct_def unique_def refine_s_def array_s_def no_coercer_def)
  have t: "run (optional_s AssetStruct) True (p @ [Field ''assets'']) a = ([], None)"
    by (rule run_optional_Asset_defined [OF assms])
  have "run FeatureStruct True p (JObj [(''assets'', a)])
      = run_entries True p
          [(Field ''env'', JUndefined, run (optional_s EnvArrayStruct)),
           (Field ''assets'', a, run (optional_s AssetStruct))] Valid (JObj [(''assets'', a)])"
    by (simp add: FeatureStruct_def run_object_concrete get_prop_JObj)
  also have "\<dots> = run_entries True p
          [(Field ''assets'', a, run (optional_s AssetStruct))] Valid (JObj [(''assets'', a)])"
    by (simp only: run_entries_Cons_ok [where r = "run (optional_s EnvArrayStruct)" and k = "Field ''env''", OF e])
       (simp add: set_prop_def)
  also have "\<dots> = ([], None)"
    by (simp only: run_entries_Cons_threw [where r = "run (optional_s AssetStruct)" and k = "Field ''assets''", OF t])
  finally show ?thesis .
qed

section \<open>Assets, on examples\<close>

lemma validate_asset_document:
  "validate (example_document ''stable'' (JObj [(''a'', JObj [(''assets'', JStr ''src/**'')])]) (JArr []))
     BuildTypesStruct True = VThrew"
  by code_simp

text \<open>
  Claim C4, evaluated. A feature whose \<open>assets\<close> is a bare string, an object
  \<^verbatim>\<open>{exclusiveInclude: s}\<close> or a copy rule \<^verbatim>\<open>{src: a, dest: b}\<close> is not validated at all:
  the struct of the field is built from \<^verbatim>\<open>undefined\<close>, and validation throws a TypeError.
  Loading a configuration with the feature \<^verbatim>\<open>{assets: "src/**"}\<close> throws that TypeError and
  leaves the cache empty.
\<close>

theorem assets_throw:
  "run FeatureStruct True p (JObj [(''assets'', JStr s)] :: 'n jsval) = ([], None)
   \<and> run FeatureStruct True p (JObj [(''assets'', JObj [(''exclusiveInclude'', JStr s)])] :: 'n jsval)
       = ([], None)
   \<and> run FeatureStruct True p (JObj [(''assets'', JObj [(''src'', JStr a), (''dest'', JStr b)])] :: 'n jsval)
       = ([], None)
   \<and> loadBuildTypesConfig
        (Some (example_document ''stable'' (JObj [(''a'', JObj [(''assets'', JStr ''src/**'')])]) (JArr [])))
        initial_process
       = (Inl TypeError,
          \<lparr>cachedBuildTypes = None, reads = 1,
           objects = [example_document ''stable'' (JObj [(''a'', JObj [(''assets'', JStr ''src/**'')])]) (JArr [])]\<rparr>)"
  by (simp add: run_Feature_assets loadBuildTypesConfig_def allocate_def Let_def
      validate_asset_document initial_process_def)

section \<open>Features\<close>

lemma FeaturesStruct_alt:
  "FeaturesStruct = refine_s (record_s string_s FeatureValueStruct) ''feature definitions'' feature_definitions"
  by (simp add: FeaturesStruct_def FeatureValueStruct_def)

lemma get_set_same: "get_prop (set_prop (JObj kvs) (Field k) y) k = y"
proof (cases "y \<noteq> JUndefined \<or> k \<in> set (map fst kvs)")
  case True
  then have "set_prop (JObj kvs) (Field k) y = JObj (AList.update k y kvs)"
    by (simp add: set_prop_def)
  then show ?thesis
    by (simp add: get_prop_JObj update_conv')
next
  case False
  then have "set_prop (JObj kvs) (Field k) y = JObj kvs" "map_of kvs k = None" "y = JUndefined"
    by (simp_all add: set_prop_def map_of_eq_None_iff)
  then show ?thesis
    by (simp add: get_prop_JObj)
qed

lemma get_set_other:
  assumes "k \<noteq> k'"
  shows "get_prop (set_prop (JObj kvs) (Field k') y) k = get_prop (JObj kvs) k"
proof (cases "y \<noteq> JUndefined \<or> k' \<in> set (map fst kvs)")
  case True
  then have "set_prop (JObj kvs) (Field k') y = JObj (AList.update k' y kvs)"
    by (simp add: set_prop_def)
  then show ?thesis
    using assms by (simp add: get_prop_JObj update_conv')
next
  case False
  then have "set_prop (JObj kvs) (Field k') y = JObj kvs"
    by (simp add: set_prop_def)
  then show ?thesis by simp
qed

lemma set_prop_JObj: "\<exists>kvs'. set_prop (JObj kvs) (Field k) y = JObj kvs'"
  by (simp add: set_prop_def Let_def)

lemma run_optional_EnvArray_undefined:
  "run (optional_s EnvArrayStruct) c p JUndefined = ([], Some (Valid, JUndefined))"
proof (rule run_optional_undefined)
  show "coercer EnvArrayStruct JUndefined = Some JUndefined"
    using coerced_EnvArray [of True JUndefined] by (simp add: coerced_def)
  show "entries EnvArrayStruct JUndefined = []"
    by (simp add: EnvArrayStruct_def unique_def refine_s_def array_s_def)
qed

lemma run_env_field:
  assumes "v = JUndefined \<or> is_env v"
  shows "run (optional_s EnvArrayStruct) True p v = ([], Some (Valid, normal_env v))"
proof (cases "v = JUndefined")
  case True
  then show ?thesis
    by (simp add: run_optional_EnvArray_undefined normal_env_def)
next
  case False
  with assms obtain xs where v: "v = JArr xs" and xs: "\<forall>e \<in> set xs. is_env_entry e"
      and d: "distinct (map entry_key xs)"
    by (cases v) (auto simp: is_env_def list_all_iff)
  from run_EnvArray_entries [OF xs, of p] d v show ?thesis
    by (simp add: run_optional_EnvArray normal_env_def)
qed

lemma run_env_form:
  assumes "list_all is_env_entry xs"
  shows "run (optional_s EnvArrayStruct) True p (JArr xs) =
     (if distinct (map entry_key xs) then ([], Some (Valid, JArr (map normal_entry xs)))
      else ([Failure duplicated p (Some ''unique'')], Some (NotRefined, JArr (map normal_entry xs))))"
proof -
  from assms have "\<forall>e \<in> set xs. is_env_entry e"
    by (simp add: list_all_iff)
  from run_EnvArray_entries [OF this, of p] show ?thesis
    by (simp add: run_optional_EnvArray)
qed

lemma set_assets_undefined:
  assumes "get_prop (JObj kvs) ''assets'' = JUndefined"
  shows "set_prop (JObj kvs) (Field ''assets'') JUndefined = JObj kvs"
  using set_prop_get [of kvs "''assets''"] assms by simp

lemma feature_form_cases:
  assumes "feature_form (JObj kvs)"
  obtains "get_prop (JObj kvs) ''env'' = JUndefined" and "feature_entries (JObj kvs) = []"
  | xs where "get_prop (JObj kvs) ''env'' = JArr xs" and "list_all is_env_entry xs"
      and "feature_entries (JObj kvs) = xs"
proof (cases "get_prop (JObj kvs) ''env'' = JUndefined")
  case True
  then have "feature_entries (JObj kvs) = []"
    by (simp add: feature_entries_def)
  with True that(1) show ?thesis by blast
next
  case False
  with assms obtain xs where "get_prop (JObj kvs) ''env'' = JArr xs" and "list_all is_env_entry xs"
    by (cases "get_prop (JObj kvs) ''env''") (simp_all add: feature_form_def)
  then show ?thesis
    using that(2) by (simp add: feature_entries_def)
qed

lemma run_Feature_fields:
  assumes "set (map fst kvs) \<subseteq> {''env'', ''assets''}"
  shows "run FeatureStruct True p (JObj kvs) = run_entries True p
      [(Field ''env'', get_prop (JObj kvs) ''env'', run (optional_s EnvArrayStruct)),
       (Field ''assets'', get_prop (JObj kvs) ''assets'', run (optional_s AssetStruct))] Valid (JObj kvs)"
proof -
  have "filter (\<lambda>k. k \<notin> set (map fst [(''env'', optional_s EnvArrayStruct), (''assets'', optional_s (AssetStruct :: 'a struct))]))
      (map fst kvs) = []"
    using assms by (auto simp: filter_empty_conv)
  then have un: "unknown_entries (JObj kvs) [(''env'', optional_s EnvArrayStruct), (''assets'', optional_s AssetStruct)] = []"
    by (simp add: unknown_entries_def own_keys_def)
  show ?thesis
    by (simp add: FeatureStruct_def run_object_JObj un field_entries_def)
qed

lemma run_Feature_form:
  assumes "feature_form (JObj kvs)"
  shows "run FeatureStruct True p (JObj kvs) =
     (if repeats (JObj kvs)
      then ([Failure duplicated (p @ [Field ''env'']) (Some ''unique'')], Some (NotRefined, JObj kvs))
      else ([], Some (Valid, normal_feature (JObj kvs))))"
proof -
  from assms have keys: "set (map fst kvs) \<subseteq> {''env'', ''assets''}"
    and assets: "get_prop (JObj kvs) ''assets'' = JUndefined"
    by (simp_all add: feature_form_def)
  have a: "run (optional_s AssetStruct) True (p @ [Field ''assets'']) (get_prop (JObj kvs) ''assets'')
      = ([], Some (Valid, JUndefined))"
    by (simp add: assets run_optional_Asset_undefined)
  have ok: "run FeatureStruct True p (JObj kvs) = ([], Some (Valid, normal_feature (JObj kvs)))"
    if e: "run (optional_s EnvArrayStruct) True (p @ [Field ''env'']) (get_prop (JObj kvs) ''env'')
      = ([], Some (Valid, normal_env (get_prop (JObj kvs) ''env'')))"
  proof -
    obtain kvs1 where k1: "set_prop (JObj kvs) (Field ''env'') (normal_env (get_prop (JObj kvs) ''env'')) = JObj kvs1"
      using set_prop_JObj by blast
    have "get_prop (set_prop (JObj kvs) (Field ''env'') (normal_env (get_prop (JObj kvs) ''env''))) ''assets''
        = get_prop (JObj kvs) ''assets''"
      by (rule get_set_other) simp
    with k1 assets have "get_prop (JObj kvs1) ''assets'' = JUndefined"
      by simp
    then have s: "set_prop (JObj kvs1) (Field ''assets'') JUndefined = JObj kvs1"
      by (rule set_assets_undefined)
    have "run_entries True p
        [(Field ''env'', get_prop (JObj kvs) ''env'', run (optional_s EnvArrayStruct)),
         (Field ''assets'', get_prop (JObj kvs) ''assets'', run (optional_s AssetStruct))] Valid (JObj kvs)
       = ([], Some (Valid, JObj kvs1))"
      by (simp only: run_entries_Cons_ok [where r = "run (optional_s EnvArrayStruct)" and k = "Field ''env''", OF e]
            run_entries_Cons_ok [where r = "run (optional_s AssetStruct)" and k = "Field ''assets''", OF a]
            run_entries.simps(1) if_True k1 s)
    with k1 show ?thesis
      by (simp add: run_Feature_fields [OF keys] normal_feature_def)
  qed
  from assms show ?thesis
  proof (cases rule: feature_form_cases)
    case 1
    then have "\<not> repeats (JObj kvs)"
      by (simp add: repeats_def)
    moreover have "run (optional_s EnvArrayStruct) True (p @ [Field ''env'']) (get_prop (JObj kvs) ''env'')
      = ([], Some (Valid, normal_env (get_prop (JObj kvs) ''env'')))"
      using 1 by (simp add: run_optional_EnvArray_undefined normal_env_def)
    ultimately show ?thesis
      using ok by simp
  next
    case (2 xs)
    note r = run_env_form [OF 2(2), of "p @ [Field ''env'']"]
    show ?thesis
    proof (cases "distinct (map entry_key xs)")
      case True
      with 2 have "\<not> repeats (JObj kvs)"
        by (simp add: repeats_def)
      moreover have "run (optional_s EnvArrayStruct) True (p @ [Field ''env'']) (get_prop (JObj kvs) ''env'')
        = ([], Some (Valid, normal_env (get_prop (JObj kvs) ''env'')))"
        using r True 2(1) by (simp add: normal_env_def)
      ultimately show ?thesis
        using ok by simp
    next
      case False
      with 2 have rep: "repeats (JObj kvs)"
        by (simp add: repeats_def)
      have e: "run (optional_s EnvArrayStruct) True (p @ [Field ''env'']) (get_prop (JObj kvs) ''env'')
        = ([Failure duplicated (p @ [Field ''env'']) (Some ''unique'')],
           Some (NotRefined, JArr (map normal_entry xs)))"
        using r False 2(1) by simp
      have ne: "[Failure duplicated (p @ [Field ''env'']) (Some ''unique'')] \<noteq> []"
        by simp
      have "run_entries True p
          [(Field ''env'', get_prop (JObj kvs) ''env'', run (optional_s EnvArrayStruct)),
           (Field ''assets'', get_prop (JObj kvs) ''assets'', run (optional_s AssetStruct))] Valid (JObj kvs)
         = ([Failure duplicated (p @ [Field ''env'']) (Some ''unique'')], Some (NotRefined, JObj kvs))"
        by (simp only: run_entries_Cons_failed [where r = "run (optional_s EnvArrayStruct)" and k = "Field ''env''", OF e ne]
              run_entries_Cons_ok [where r = "run (optional_s AssetStruct)" and k = "Field ''assets''", OF a]
              run_entries.simps(1) if_True set_assets_undefined [OF assets])
           simp
      with rep show ?thesis
        by (simp add: run_Feature_fields [OF keys])
    qed
  qed
qed

lemma is_feature_iff: "is_feature f \<longleftrightarrow> feature_form f \<and> \<not> repeats f"
proof (cases f)
  case (JObj kvs)
  show ?thesis
  proof (cases "get_prop (JObj kvs) ''env''")
    case (JArr xs)
    then show ?thesis
      by (auto simp: JObj is_feature_def feature_form_def repeats_def feature_entries_def is_env_def)
  qed (simp_all add: JObj is_feature_def feature_form_def repeats_def feature_entries_def is_env_def)
qed (simp_all add: is_feature_def feature_form_def repeats_def feature_entries_def get_prop_def own_props_def)

lemma run_Feature:
  assumes "is_feature (JObj kvs)"
  shows "run FeatureStruct True p (JObj kvs) = ([], Some (Valid, normal_feature (JObj kvs)))"
  using assms run_Feature_form [of kvs p] by (simp add: is_feature_iff)

lemma run_nullable_never:
  "run (nullable_s never_s) False p (v :: 'n jsval) =
     (if v = JNull then ([], Some (Valid, v))
      else ([Failure (expected_type ''never'' v) p None], Some (NotValid, v)))"
proof -
  have "pre_refine (nullable_s never_s) False p v =
     (if v = JNull then ([], Some (Valid, v))
      else ([Failure (expected_type ''never'' v) p None], Some (NotValid, v)))"
    by (simp add: pre_refine_def coerced_def nullable_s_def never_s_def define_s_def no_entries_def)
  moreover have "refiner (nullable_s never_s) (JNull :: 'n jsval) p = ([], False)"
    by (simp add: nullable_s_def)
  ultimately show ?thesis
    by (simp add: run_stages apply_refiner_def)
qed

lemma is_null_feature: "is_s v (nullable_s never_s) = Some (v = JNull)"
  by (simp add: is_s_def validate_def run_nullable_never)

lemma run_FeatureValue_form:
  assumes "feature_form f"
  shows "run FeatureValueStruct True p f =
     (if repeats f
      then ([Failure duplicated (p @ [Field ''env'']) (Some ''unique'')], Some (NotRefined, f))
      else ([], Some (Valid, normal_feature f)))"
proof (cases "f = JNull")
  case True
  have "feature_form (JObj [])"
    by (simp add: feature_form_def get_prop_JObj)
  from run_Feature_form [OF this, of p] have "run FeatureStruct True p (JObj []) = ([], Some (Valid, JObj []))"
    by (simp add: repeats_def feature_entries_def normal_feature_def normal_env_def get_prop_JObj set_prop_def)
  with True show ?thesis
    by (simp add: FeatureValueStruct_def run_coerce_True is_null_feature normal_feature_def
        repeats_def feature_entries_def get_prop_def own_props_def)
next
  case False
  with assms obtain kvs where f: "f = JObj kvs"
    by (cases f) (simp_all add: feature_form_def)
  from run_Feature_form [of kvs p] assms f False show ?thesis
    by (simp add: FeatureValueStruct_def run_coerce_True is_null_feature)
qed

lemma run_FeatureValue:
  assumes "is_feature f"
  shows "run FeatureValueStruct True p f = ([], Some (Valid, normal_feature f))"
  using assms run_FeatureValue_form [of f p] by (simp add: is_feature_iff)

lemma run_features_record:
  assumes "distinct (map fst fs)" and "list_all is_feature (map snd fs)"
  shows "run (record_s string_s FeatureValueStruct) True p (JObj fs)
     = ([], Some (Valid, JObj (map (\<lambda>(name, f). (name, normal_feature f)) fs)))"
proof -
  have "\<forall>(k, x) \<in> set fs. \<exists>st. run FeatureValueStruct True (p @ [Field k]) x
      = ([], Some (st, (\<lambda>k x. normal_feature x) k x))"
    using assms(2) by (auto simp: list_all_iff run_FeatureValue)
  from run_record_valid [OF this assms(1)] show ?thesis
    by simp
qed

lemma feature_entries_normal:
  assumes "is_feature f"
  shows "iterate (feature_env (normal_feature f)) = Some (map normal_entry (feature_entries f))"
proof (cases "f = JNull")
  case True
  then show ?thesis
    by (simp add: normal_feature_def feature_env_def get_member_def get_prop_def own_props_def
        iterate_def feature_entries_def)
next
  case False
  with assms obtain kvs where f: "f = JObj kvs"
    by (cases f) (simp_all add: is_feature_def)
  obtain kvs1 where k1: "set_prop (JObj kvs) (Field ''env'') (normal_env (get_prop (JObj kvs) ''env'')) = JObj kvs1"
    using set_prop_JObj by blast
  have nf: "normal_feature f = JObj kvs1"
    using f k1 by (simp add: normal_feature_def)
  have "get_prop (set_prop (JObj kvs) (Field ''env'') (normal_env (get_prop (JObj kvs) ''env''))) ''env''
      = normal_env (get_prop (JObj kvs) ''env'')"
    by (rule get_set_same)
  then have e1: "get_prop (JObj kvs1) ''env'' = normal_env (get_prop (JObj kvs) ''env'')"
    by (simp only: k1)
  have env: "get_prop (normal_feature f) ''env'' = normal_env (get_prop f ''env'')"
    using nf f e1 by simp
  from assms f have "get_prop f ''env'' = JUndefined \<or> is_env (get_prop f ''env'')"
    by (simp add: is_feature_def)
  then show ?thesis
  proof
    assume u: "get_prop f ''env'' = JUndefined"
    then show ?thesis
      using env nf by (simp add: feature_env_def get_member_def normal_env_def iterate_def feature_entries_def)
  next
    assume "is_env (get_prop f ''env'')"
    then obtain xs where xs: "get_prop f ''env'' = JArr xs"
      by (cases "get_prop f ''env''") (simp_all add: is_env_def)
    then show ?thesis
      using env nf by (simp add: feature_env_def get_member_def normal_env_def iterate_def feature_entries_def)
  qed
qed

lemma feature_entries_forms:
  assumes "is_feature f"
  shows "list_all is_env_entry (feature_entries f)"
proof (cases "get_prop f ''env''")
  case (JArr xs)
  with assms have "is_env (JArr xs)"
    by (cases f) (auto simp: is_feature_def get_prop_def own_props_def)
  with JArr show ?thesis
    by (simp add: feature_entries_def is_env_def)
qed (simp_all add: feature_entries_def)

lemma is_string_normal: "is_string (normal_entry e) = is_string e"
  by (cases e) (auto simp: normal_entry_def is_string_def split: list.splits prod.splits)

lemma conflict_object: "conflict (JObj kvs) = message (conflict_failure p)"
  by (simp add: conflict_def template_def conflict_failure_def)

lemma normal_entry_object:
  assumes "is_env_entry e" and "\<not> is_string e"
  shows "\<exists>kvs. normal_entry e = JObj kvs"
  using assms
  by (cases e) (auto simp: is_env_entry_def is_string_def normal_entry_def split: list.splits prod.splits)

lemma set_has_strings: "set_has (map JStr seen) (JStr k) = (k \<in> set seen)"
  by (auto simp: set_has_def strict_equals_def is_object_def)

lemma set_add_strings:
  "set_add (map JStr seen) (JStr k) = map JStr (if k \<in> set seen then seen else seen @ [k])"
  by (simp add: set_add_def set_has_strings)

lemma scan_env_normal:
  assumes "list_all is_env_entry xs"
  shows "scan_env (map normal_entry xs) (map JStr seen)
     = (replicate (conflicts seen (defined_keys xs)) (message (conflict_failure p)),
        Some (map JStr (add_keys seen (defined_keys xs))))"
  using assms
proof (induction xs arbitrary: seen)
  case Nil
  then show ?case by (simp add: defined_keys_def)
next
  case (Cons x xs)
  then have x: "is_env_entry x" and rest: "list_all is_env_entry xs" by simp_all
  show ?case
  proof (cases "is_string x")
    case True
    then show ?thesis
      using Cons.IH [OF rest, of seen] by (simp add: is_string_normal defined_keys_def)
  next
    case False
    from env_key_normal [OF x] False
    have key: "get_member (normal_entry x) ''key'' = Some (JStr (entry_key x))"
      by (simp add: env_key_def is_string_normal)
    from normal_entry_object [OF x False] obtain kvs where "normal_entry x = JObj kvs" by blast
    then have msg: "conflict (normal_entry x) = message (conflict_failure p)"
      by (simp add: conflict_object)
    have dk: "defined_keys (x # xs) = entry_key x # defined_keys xs"
      using False by (simp add: defined_keys_def)
    show ?thesis
    proof (cases "entry_key x \<in> set seen")
      case True
      then show ?thesis
        using Cons.IH [OF rest, of seen] False
        by (simp add: is_string_normal key msg dk set_has_strings set_add_strings)
    next
      case notin: False
      then show ?thesis
        using Cons.IH [OF rest, of "seen @ [entry_key x]"] False
        by (simp add: is_string_normal key msg dk set_has_strings set_add_strings)
    qed
  qed
qed

lemma add_keys_append: "add_keys seen (a @ b) = add_keys (add_keys seen a) b"
  by (induction a arbitrary: seen) simp_all

lemma conflicts_append:
  "conflicts seen (a @ b) = conflicts seen a + conflicts (add_keys seen a) b"
  by (induction a arbitrary: seen) simp_all

lemma conflicts_zero:
  "conflicts seen ks = 0 \<longleftrightarrow> distinct ks \<and> set ks \<inter> set seen = {}"
  by (induction ks arbitrary: seen) auto

lemma scan_features_normal:
  assumes "list_all is_feature fs"
  shows "scan_features (map normal_feature fs) (map JStr seen)
     = (replicate (conflicts seen (concat (map (\<lambda>f. defined_keys (feature_entries f)) fs)))
          (message (conflict_failure p)),
        Some (map JStr (add_keys seen (concat (map (\<lambda>f. defined_keys (feature_entries f)) fs)))))"
  using assms
proof (induction fs arbitrary: seen)
  case Nil
  then show ?case by simp
next
  case (Cons f fs)
  then have f: "is_feature f" and rest: "list_all is_feature fs" by simp_all
  note it = feature_entries_normal [OF f]
  note sc = scan_env_normal [OF feature_entries_forms [OF f], of seen p]
  show ?case
    using Cons.IH [OF rest, of "add_keys seen (defined_keys (feature_entries f))"]
    by (simp add: it sc conflicts_append add_keys_append replicate_add)
qed


lemma conflict_failure_message:
  "Failure (message (conflict_failure p)) p (Some ''feature definitions'') = conflict_failure p"
  by (simp add: conflict_failure_def)

lemma all_defined_keys_alt:
  "all_defined_keys fs = concat (map (\<lambda>f. defined_keys (feature_entries f)) (map snd fs))"
  by (simp add: all_defined_keys_def comp_def case_prod_unfold)

lemma feature_definitions_normal:
  assumes "list_all is_feature (map snd fs)"
  shows "feature_definitions (JObj (map (\<lambda>(name, f). (name, normal_feature f)) fs))
     = (replicate (conflicts [] (all_defined_keys fs)) (message (conflict_failure p)), False)"
proof -
  have "object_values (JObj (map (\<lambda>(name, f). (name, normal_feature f)) fs))
      = Some (map normal_feature (map snd fs))"
    by (simp add: object_values_def own_props_def comp_def case_prod_unfold)
  moreover note scan_features_normal [OF assms, of "[]" p]
  ultimately show ?thesis
    by (simp add: feature_definitions_def all_defined_keys_alt)
qed

text \<open>
  Claim C2, as the code has it. Take a features map whose features each pass their own
  validation. The conflict check looks at the object-form entries only: validation yields
  one failure of the refinement \<open>feature definitions\<close>, at the path of the map, for every
  object-form entry whose key an earlier object-form entry of the map has defined, and it
  succeeds exactly when the keys of all object-form entries are distinct. Bare string
  entries take no part.
\<close>

theorem feature_conflicts:
  assumes "distinct (map fst fs)" and "list_all is_feature (map snd fs)"
  shows "run FeaturesStruct True p (JObj fs) =
       (replicate (conflicts [] (all_defined_keys fs)) (conflict_failure p),
        Some (if distinct (all_defined_keys fs) then Valid else NotRefined,
              JObj (map (\<lambda>(name, f). (name, normal_feature f)) fs)))
     \<and> (conflicts [] (all_defined_keys fs) = 0 \<longleftrightarrow> distinct (all_defined_keys fs))"
proof -
  have z: "conflicts [] (all_defined_keys fs) = 0 \<longleftrightarrow> distinct (all_defined_keys fs)"
    by (simp add: conflicts_zero)
  have "run FeaturesStruct True p (JObj fs) =
       (replicate (conflicts [] (all_defined_keys fs)) (conflict_failure p),
        Some (if distinct (all_defined_keys fs) then Valid else NotRefined,
              JObj (map (\<lambda>(name, f). (name, normal_feature f)) fs)))"
    using z
    by (simp add: FeaturesStruct_alt run_refine run_features_record [OF assms]
        feature_definitions_normal [OF assms(2), of p] conflict_failure_message)
  with z show ?thesis by simp
qed

section \<open>Features, on examples\<close>

theorem feature_conflicts_witness:
  "distinct (map fst defining_features)
   \<and> list_all is_feature (map snd defining_features)
   \<and> run FeaturesStruct True [Field ''features''] (JObj defining_features)
       = ([conflict_failure [Field ''features'']],
          Some (NotRefined, JObj
            [(''a'', JObj [(''env'', JArr [JObj [(''key'', JStr ''X''), (''value'', JStr ''1'')]])]),
             (''b'', JObj [(''env'', JArr [JObj [(''key'', JStr ''X''), (''value'', JStr ''2'')], JStr ''Y''])])]))"
proof -
  have h1: "distinct (map fst defining_features)"
    by code_simp
  have h2: "list_all is_feature (map snd defining_features)"
    by code_simp
  have e1: "conflicts [] (all_defined_keys defining_features) = 1"
    by code_simp
  have e2: "distinct (all_defined_keys defining_features) = False"
    by code_simp
  have e3: "map (\<lambda>(name, f). (name, normal_feature f)) defining_features
      = [(''a'', JObj [(''env'', JArr [JObj [(''key'', JStr ''X''), (''value'', JStr ''1'')]])]),
         (''b'', JObj [(''env'', JArr [JObj [(''key'', JStr ''X''), (''value'', JStr ''2'')], JStr ''Y''])])]"
    by code_simp
  from feature_conflicts [OF h1 h2, of "[Field ''features'']"] h1 h2 show ?thesis
    by (simp add: e1 e2 e3)
qed

text \<open>
  Claim C2 as stated fails on its own example: two features that each name \<open>X\<close> as a bare
  string validate without any failure.
\<close>

theorem bare_string_features_counterexample:
  "validate (example_document ''stable'' (JObj naming_features) (JArr [])) BuildTypesStruct True
     = VOk (example_document ''stable'' (JObj naming_features) (JArr []))"
  by code_simp

section \<open>The features map\<close>

lemma unique_failures_refined:
  assumes "unique_failures p fs \<noteq> []"
  shows "refinement (last (unique_failures p fs)) \<noteq> None"
proof -
  have "\<forall>f \<in> set (unique_failures p fs). refinement f \<noteq> None"
    by (auto simp: unique_failures_def unique_failure_def split: if_splits)
  moreover have "last (unique_failures p fs) \<in> set (unique_failures p fs)"
    using assms by (rule last_in_set)
  ultimately show ?thesis
    by blast
qed

lemma run_features_record_form:
  assumes "distinct (map fst fs)" and "list_all feature_form (map snd fs)"
  shows "run (record_s string_s FeatureValueStruct) True p (JObj fs)
     = (unique_failures p fs,
        Some (if unique_failures p fs = [] then Valid else NotRefined,
              JObj (map (\<lambda>(name, f). (name, validated_feature name f)) fs)))"
proof -
  let ?F = "\<lambda>k x. if repeats x then [unique_failure p k] else []"
  let ?g = "\<lambda>(k :: string) x. if repeats x then x else normal_feature x"
  have "\<forall>(k, x) \<in> set fs. \<exists>st. run FeatureValueStruct True (p @ [Field k]) x
      = (?F k x, Some (st, ?g k x))"
    using assms(2) by (auto simp: list_all_iff run_FeatureValue_form unique_failure_def)
  note r = run_record_mixed [where F = ?F and g = ?g, OF this assms(1)]
  have u: "concat (map (\<lambda>(k, x). ?F k x) fs) = unique_failures p fs"
    by (simp add: unique_failures_def)
  have v: "map (\<lambda>(k, x). (k, if ?F k x = [] then ?g k x else JStr k)) fs
      = map (\<lambda>(name, f). (name, validated_feature name f)) fs"
    by (rule map_cong) (auto simp: validated_feature_def)
  show ?thesis
    using unique_failures_refined [of p fs]
    by (simp only: r u v) simp
qed

lemma scan_features_string:
  "scan_features (JStr s # features) (definitions :: 'n jsval list) = scan_features features definitions"
proof -
  have it: "iterate (feature_env (JStr s :: 'n jsval)) = Some []"
    by (simp add: feature_env_def get_member_def get_prop_def own_props_def iterate_def)
  show ?thesis
    by (cases "scan_features features definitions") (simp add: it)
qed

lemma scan_validated_features:
  "scan_features (map (\<lambda>(name, f). validated_feature name f) fs) definitions
     = scan_features (map normal_feature (map snd (seen_features fs))) definitions"
proof (induction fs arbitrary: definitions)
  case Nil
  then show ?case by (simp add: seen_features_def)
next
  case (Cons nf fs)
  obtain name f where nf: "nf = (name, f)" by (cases nf)
  show ?case
  proof (cases "repeats f")
    case True
    then show ?thesis
      using Cons.IH
      by (simp add: nf validated_feature_def seen_features_def scan_features_string
          del: scan_features.simps)
  next
    case False
    have s: "seen_features (nf # fs) = (name, f) # seen_features fs"
      using False by (simp add: nf seen_features_def)
    have v: "map (\<lambda>(name, f). validated_feature name f) (nf # fs)
        = normal_feature f # map (\<lambda>(name, f). validated_feature name f) fs"
      using False by (simp add: nf validated_feature_def)
    show ?thesis
      unfolding s v
      by (cases "iterate (feature_env (normal_feature f))")
         (simp_all add: Cons.IH split: prod.splits option.splits)
  qed
qed

lemma seen_features_pass:
  assumes "list_all feature_form (map snd fs)"
  shows "list_all is_feature (map snd (seen_features fs))"
  using assms by (auto simp: list_all_iff seen_features_def is_feature_iff)

lemma feature_definitions_validated:
  assumes "list_all feature_form (map snd fs)"
  shows "feature_definitions (JObj (map (\<lambda>(name, f). (name, validated_feature name f)) fs))
     = (replicate (conflicts [] (all_defined_keys (seen_features fs))) (message (conflict_failure p)), False)"
proof -
  have "object_values (JObj (map (\<lambda>(name, f). (name, validated_feature name f)) fs))
      = Some (map (\<lambda>(name, f). validated_feature name f) fs)"
    by (simp add: object_values_def own_props_def comp_def case_prod_unfold)
  moreover note scan_validated_features [of fs "[]"]
  moreover note scan_features_normal [OF seen_features_pass [OF assms], of "[]" p]
  ultimately show ?thesis
    by (simp add: feature_definitions_def all_defined_keys_alt)
qed

text \<open>
  Claim C10, as the code has it. Take a features map whose features have the form of a
  feature, their \<open>env\<close> sequences possibly repeating a key. A feature that repeats a key
  fails the uniqueness check of its \<open>env\<close>, and the map then holds the feature's name in
  its place. The conflict check keeps one set of keys for the whole map, over the features
  that are left: it reports an object-form entry exactly when an earlier object-form entry
  of these features, of the same or of another feature, has its key. It does not see the
  entries of a feature that repeats a key, so a key repeated within one feature is reported
  by the uniqueness check and not as a conflict.
\<close>

theorem conflict_check_sees_unique_features:
  assumes "distinct (map fst fs)" and "list_all feature_form (map snd fs)"
  shows "run FeaturesStruct True p (JObj fs) =
       (unique_failures p fs
          @ replicate (conflicts [] (all_defined_keys (seen_features fs))) (conflict_failure p),
        Some (if unique_failures p fs = [] \<and> distinct (all_defined_keys (seen_features fs))
              then Valid else NotRefined,
              JObj (map (\<lambda>(name, f). (name, validated_feature name f)) fs)))"
proof -
  have z: "conflicts [] (all_defined_keys (seen_features fs)) = 0
      \<longleftrightarrow> distinct (all_defined_keys (seen_features fs))"
    by (simp add: conflicts_zero)
  have m: "map (\<lambda>m. Failure m p (Some ''feature definitions''))
        (replicate n (message (conflict_failure p))) = replicate n (conflict_failure p)" for n
    by (simp add: conflict_failure_message)
  show ?thesis
    using z
    by (simp add: FeaturesStruct_alt run_refine run_features_record_form [OF assms]
        feature_definitions_validated [OF assms(2), of p] m conflict_failure_message)
qed

section \<open>The features map, on examples\<close>

theorem conflict_check_sees_unique_features_witness:
  "distinct (map fst mixed_features)
   \<and> list_all feature_form (map snd mixed_features)
   \<and> run FeaturesStruct True [Field ''features''] (JObj mixed_features)
       = ([unique_failure [Field ''features''] ''a'', conflict_failure [Field ''features'']],
          Some (NotRefined, JObj
            [(''a'', JStr ''a''),
             (''b'', JObj [(''env'', JArr [JObj [(''key'', JStr ''X''), (''value'', JStr ''3'')]])]),
             (''c'', JObj [(''env'', JArr [JObj [(''key'', JStr ''X''), (''value'', JStr ''4'')]])])]))"
proof -
  have h1: "distinct (map fst mixed_features)"
    by code_simp
  have h2: "list_all feature_form (map snd mixed_features)"
    by code_simp
  have e1: "unique_failures [Field ''features''] mixed_features = [unique_failure [Field ''features''] ''a'' :: unit failure]"
    by code_simp
  have e2: "conflicts [] (all_defined_keys (seen_features mixed_features)) = 1"
    by code_simp
  have e3: "distinct (all_defined_keys (seen_features mixed_features)) = False"
    by code_simp
  have e4: "map (\<lambda>(name, f). (name, validated_feature name f)) mixed_features
      = [(''a'', JStr ''a''),
         (''b'', JObj [(''env'', JArr [JObj [(''key'', JStr ''X''), (''value'', JStr ''3'')]])]),
         (''c'', JObj [(''env'', JArr [JObj [(''key'', JStr ''X''), (''value'', JStr ''4'')]])])]"
    by code_simp
  from conflict_check_sees_unique_features [OF h1 h2, of "[Field ''features'']"] h1 h2 show ?thesis
    by (simp add: e1 e2 e3 e4)
qed

text \<open>
  Claim C10 as stated fails: a feature that defines \<open>X\<close> twice in its own sequence is
  rejected for the repetition alone, and no conflict failure is emitted.
\<close>

theorem repeated_key_not_a_conflict_counterexample:
  "validate (example_document ''stable'' (JObj repeating_features) (JArr [])) BuildTypesStruct True
     = VError [Failure (Text ''Array contains duplicated values'')
                 [Field ''features'', Field ''a'', Field ''env''] (Some ''unique'')] False"
  by code_simp

section \<open>The default build type\<close>


lemma BuildTypesStruct_refines:
  "BuildTypesStruct = refine_s BuildTypesFields ''BuildTypes'' default_exists"
  by (simp add: BuildTypesStruct_def BuildTypesFields_def)



lemma default_exists_keys:
  assumes "object_keys (get_prop v ''buildTypes'') = Some keys"
  shows "default_exists v =
     (if includes_s keys (get_prop v ''default'') then []
      else [template (''Default build type '' @ dq) (get_prop v ''default'')
              (dq @ '' does not exist in builds declarations'')],
      False)"
  using assms by (simp add: default_exists_def)



lemma validate_failures:
  assumes "run s c [] v = (fs, Some sv)" and "fs \<noteq> []"
  shows "validate v s c = VError fs False"
  using assms by (cases fs) (simp_all add: validate_def)


lemma fields_default_present:
  assumes "run BuildTypesFields True [] doc = (fs, Some (st, v))"
    and "object_keys (get_prop v ''buildTypes'') = Some keys"
    and "includes_s keys (get_prop v ''default'')"
  shows "validate doc BuildTypesStruct True = (if fs = [] then VOk v else VError fs False)"
proof -
  from assms have r: "run BuildTypesStruct True [] doc = (fs, Some (st, v))"
    by (simp add: BuildTypesStruct_refines run_refine default_exists_keys [OF assms(2)])
  show ?thesis
  proof (cases "fs = []")
    case True
    with r show ?thesis
      by (simp add: validate_def)
  next
    case False
    from validate_failures [OF r False] False show ?thesis
      by simp
  qed
qed

lemma fields_pass_default:
  assumes "run BuildTypesFields True [] doc = ([], Some (Valid, v))"
    and "get_prop v ''default'' = JStr d"
    and "object_keys (get_prop v ''buildTypes'') = Some keys"
    and "d \<in> set keys"
  shows "validate doc BuildTypesStruct True = VOk v"
  using fields_default_present [OF assms(1,3)] assms(2,4) by (simp add: includes_s_def)


section \<open>The default build type, on examples\<close>



section \<open>Canonical documents\<close>

lemma passes_run: "passes s v \<Longrightarrow> run s True p v = ([], Some (Valid, v))"
  by (simp add: passes_def)

lemma passes_accepts: "accepts s v \<Longrightarrow> passes s v"
  by (simp add: passes_def accepts_def)

lemma passes_string: "is_string v \<Longrightarrow> passes string_s v"
  by (simp add: passes_def run_string)

lemma passes_fields:
  assumes "\<forall>(k, s) \<in> set sch. passes s (get_prop (JObj kvs) k)"
  shows "run_entries True p (field_entries (JObj kvs) sch) st0 (JObj kvs) = ([], Some (st0, JObj kvs))"
  using assms
proof (induction sch)
  case Nil
  then show ?case by (simp add: field_entries_def)
next
  case (Cons ks sch)
  obtain k s where ks: "ks = (k, s)" by (cases ks)
  have x: "run s True (p @ [Field k]) (get_prop (JObj kvs) k) = ([], Some (Valid, get_prop (JObj kvs) k))"
    using Cons.prems ks by (simp add: passes_def)
  have "run_entries True p (field_entries (JObj kvs) (ks # sch)) st0 (JObj kvs)
      = run_entries True p (field_entries (JObj kvs) sch) st0 (JObj kvs)"
    unfolding ks field_entries_def list.map prod.case
    by (simp only: run_entries_Cons_ok [where r = "run s" and k = "Field k", OF x] set_prop_get if_True)
  then show ?case
    using Cons by simp
qed

lemma passes_object:
  assumes "set (map fst kvs) \<subseteq> set (map fst schema)"
    and "\<forall>(k, s) \<in> set schema. passes s (get_prop (JObj kvs) k)"
  shows "passes (object_s schema) (JObj kvs)"
proof -
  have "filter (\<lambda>k. k \<notin> set (map fst schema)) (map fst kvs) = []"
    using assms(1) by (auto simp: filter_empty_conv)
  then have "unknown_entries (JObj kvs) schema = []"
    by (simp add: unknown_entries_def own_keys_def)
  then show ?thesis
    using passes_fields [OF assms(2)]
    by (simp add: passes_def run_object_JObj)
qed

lemma passes_record:
  assumes "\<forall>(k, x) \<in> set kvs. passes V x" and "distinct (map fst kvs)"
  shows "passes (record_s string_s V) (JObj kvs)"
proof -
  have "run (record_s string_s V) True p (JObj kvs) = ([], Some (Valid, JObj kvs))" for p
  proof -
    have "\<forall>(k, x) \<in> set kvs. \<exists>st. run V True (p @ [Field k]) x = ([], Some (st, (\<lambda>k x. x) k x))"
      using assms(1) by (auto simp: passes_def)
    from run_record_valid [OF this assms(2)] show ?thesis
      by (simp add: case_prod_unfold)
  qed
  then show ?thesis by (simp add: passes_def)
qed

lemma run_literal_False:
  "run (literal_s False) c p (JBool False) = ([], Some (Valid, JBool False))"
  by (simp add: literal_s_def no_coercer_def no_entries_def no_refiner_def)

lemma passes_override:
  assumes "is_override v"
  shows "passes (union_s [string_s, literal_s False]) v"
proof (cases "is_string v")
  case True
  then have "validate v string_s True = VOk v"
    by (simp add: validate_def run_string)
  then have co: "union_coercer [string_s, literal_s False] v = Some v"
    by simp
  have "union_failures [string_s, literal_s False] p v = Some (True, [])" for p
    using True by (simp add: run_string)
  with co show ?thesis
    by (simp add: passes_def run_union del: union_coercer.simps union_failures.simps)
next
  case False
  with assms have v: "v = JBool False"
    by (simp add: is_override_def)
  have "validate v string_s True = VError [Failure (Expected ''a string'' v) [] None] False"
    using False by (simp add: validate_def run_string)
  moreover have "validate v (literal_s False) True = VOk v"
    by (simp add: validate_def v run_literal_False)
  ultimately have co: "union_coercer [string_s, literal_s False] v = Some v"
    by simp
  have "union_failures [string_s, literal_s False] p v
      = Some (True, [Failure (Expected ''a string'' v) p None])" for p
    using False by (simp add: run_string v run_literal_False)
  with co show ?thesis
    by (simp add: passes_def run_union del: union_coercer.simps union_failures.simps)
qed

lemma includes_strict:
  assumes "\<not> is_object x"
  shows "includes_with (\<lambda>a b. Some (strict_equals a b)) res x = Some (x \<in> set res)"
  using assms by (induction res) (auto simp: strict_equals_def split: bool.splits)

lemma base_uniq_strict:
  assumes "\<forall>y \<in> set ys. \<not> is_object y" and "distinct (res @ ys)"
  shows "base_uniq (\<lambda>a b. Some (strict_equals a b)) ys res = Some (res @ ys)"
  using assms
proof (induction ys arbitrary: res)
  case Nil
  then show ?case by simp
next
  case (Cons y ys)
  from Cons.prems have y: "\<not> is_object y" and n: "y \<notin> set res" by auto
  from Cons.prems have "\<forall>z \<in> set ys. \<not> is_object z" and "distinct ((res @ [y]) @ ys)"
    by auto
  from Cons.IH [OF this] y n show ?case
    by (simp add: includes_strict)
qed

lemma unique_check_strings:
  assumes "list_all is_string xs" and "distinct xs"
  shows "unique_check None (JArr xs) = ([], False)"
proof -
  have "\<forall>y \<in> set xs. \<not> is_object y"
    using assms(1) by (auto simp: list_all_iff is_string_def is_object_def split: jsval.splits)
  from base_uniq_strict [OF this, of "[]"] assms(2) show ?thesis
    by (simp add: unique_check_def uniqWith_def)
qed

lemma passes_unique_strings:
  assumes "unique_strings v"
  shows "passes (unique (array_s string_s) None) v"
proof -
  from assms obtain xs where v: "v = JArr xs" and s: "list_all is_string xs" and d: "distinct xs"
    by (cases v) (simp_all add: unique_strings_def)
  have "\<forall>x \<in> set xs. accepts string_s x"
    using s by (auto simp: list_all_iff accepts_def run_string)
  then have "accepts (array_s string_s) (JArr xs)"
    by (rule accepts_array)
  then have "run (array_s string_s) True p (JArr xs) = ([], Some (Valid, JArr xs))" for p
    by (rule accepts_run)
  then show ?thesis
    by (simp add: passes_def v unique_def run_refine unique_check_strings [OF s d])
qed

lemma passes_optional_undefined:
  assumes "coercer s JUndefined = Some JUndefined" and "entries s JUndefined = []"
  shows "passes (optional_s s) JUndefined"
  by (simp add: passes_def run_optional_undefined [OF assms])

lemma passes_optional:
  assumes "passes s v" and "coerced s True v \<noteq> Some JUndefined"
  shows "passes (optional_s s) v"
  using assms by (simp add: passes_def run_optional)

lemma passes_features_field:
  assumes "v = JUndefined \<or> unique_strings v"
  shows "passes (optional_s (unique (array_s string_s) None)) v"
proof (cases "v = JUndefined")
  case True
  show ?thesis
    unfolding True
    by (rule passes_optional_undefined)
       (simp_all add: unique_def refine_s_def array_s_def no_coercer_def)
next
  case False
  with assms have u: "unique_strings v" by simp
  have "coerced (unique (array_s string_s) None) True v = Some v"
    by (simp add: coerced_def unique_def refine_s_def array_s_def no_coercer_def)
  with False have "coerced (unique (array_s string_s) None) True v \<noteq> Some JUndefined"
    by simp
  with passes_unique_strings [OF u] show ?thesis
    by (rule passes_optional)
qed

lemma passes_prerelease_field:
  assumes "v = JUndefined \<or> is_boolean v"
  shows "passes (optional_s boolean_s) v"
proof (cases "v = JUndefined")
  case True
  show ?thesis
    unfolding True
    by (rule passes_optional_undefined)
       (simp_all add: boolean_s_def define_s_def no_coercer_def no_entries_def)
next
  case False
  with assms have b: "is_boolean v" by simp
  then have p: "passes boolean_s v"
    by (simp add: passes_def run_boolean)
  have "coerced boolean_s True v = Some v"
    by (simp add: coerced_def boolean_s_def define_s_def no_coercer_def)
  with False have "coerced boolean_s True v \<noteq> Some JUndefined"
    by simp
  with p show ?thesis
    by (rule passes_optional)
qed

lemma canonical_entry_form:
  assumes "is_canonical_entry e"
  shows "is_env_entry e" and "normal_entry e = e"
proof -
  from assms obtain kvs where e: "e = JObj kvs"
    by (cases e) (simp_all add: is_canonical_entry_def)
  from assms e have l: "length kvs = 2"
    using canonical_entry_length by blast
  from assms e show "is_env_entry e"
    by (simp add: is_env_entry_def)
  from l obtain a b where "kvs = [a, b]"
    by (cases kvs; cases "tl kvs") auto
  with e show "normal_entry e = e"
    by (cases a) (simp add: normal_entry_def)
qed

lemma canonical_env_form:
  assumes "canonical_env v"
  shows "is_env v" and "normal_env v = v"
proof -
  from assms obtain xs where v: "v = JArr xs" and c: "list_all is_canonical_entry xs"
      and d: "distinct (map entry_key xs)"
    by (cases v) (simp_all add: canonical_env_def)
  from c have "list_all is_env_entry xs"
    by (auto simp: list_all_iff canonical_entry_form(1))
  with d v show "is_env v"
    by (simp add: is_env_def)
  from c have "map normal_entry xs = xs"
    by (induction xs) (simp_all add: canonical_entry_form(2))
  with v show "normal_env v = v"
    by (simp add: normal_env_def)
qed

lemma passes_env_field:
  assumes "v = JUndefined \<or> canonical_env v"
  shows "passes (optional_s EnvArrayStruct) v"
proof (cases "v = JUndefined")
  case True
  then show ?thesis
    by (simp add: passes_def run_optional_EnvArray_undefined)
next
  case False
  with assms have c: "canonical_env v" by simp
  from canonical_env_form [OF c] have "v = JUndefined \<or> is_env v" and n: "normal_env v = v"
    by simp_all
  from run_env_field [OF this(1)] n show ?thesis
    by (simp add: passes_def)
qed

lemma passes_env:
  assumes "canonical_env v"
  shows "passes EnvArrayStruct v"
proof -
  from assms have "v \<noteq> JUndefined"
    by (auto simp: canonical_env_def)
  from run_optional_EnvArray [OF this] passes_env_field [of v] assms show ?thesis
    by (simp add: passes_def)
qed

lemma passes_build_type:
  assumes "canonical_build_type b"
  shows "passes BuildTypeStruct b"
proof -
  from assms obtain kvs where b: "b = JObj kvs"
    by (cases b) (simp_all add: canonical_build_type_def)
  from assms b have keys: "set (map fst kvs)
      \<subseteq> {''features'', ''env'', ''isPrerelease'', ''manifestOverrides'', ''buildNameOverride''}"
    and f: "get_prop (JObj kvs) ''features'' = JUndefined \<or> unique_strings (get_prop (JObj kvs) ''features'')"
    and e: "get_prop (JObj kvs) ''env'' = JUndefined \<or> canonical_env (get_prop (JObj kvs) ''env'')"
    and i: "get_prop (JObj kvs) ''isPrerelease'' = JUndefined \<or> is_boolean (get_prop (JObj kvs) ''isPrerelease'')"
    and m: "is_override (get_prop (JObj kvs) ''manifestOverrides'')"
    and n: "is_override (get_prop (JObj kvs) ''buildNameOverride'')"
    by (simp_all add: canonical_build_type_def)
  show ?thesis
    unfolding b BuildTypeStruct_def
    by (rule passes_object)
       (insert keys, simp_all add: passes_features_field [OF f] passes_env_field [OF e]
          passes_prerelease_field [OF i] passes_override [OF m] passes_override [OF n])
qed

lemma canonical_feature_form:
  assumes "canonical_feature f"
  shows "is_feature f" and "normal_feature f = f"
proof -
  from assms obtain kvs where f: "f = JObj kvs"
    by (cases f) (simp_all add: canonical_feature_def)
  from assms f have keys: "set (map fst kvs) \<subseteq> {''env'', ''assets''}"
    and e: "get_prop (JObj kvs) ''env'' = JUndefined \<or> canonical_env (get_prop (JObj kvs) ''env'')"
    and a: "get_prop (JObj kvs) ''assets'' = JUndefined"
    by (simp_all add: canonical_feature_def)
  from e have e1: "get_prop (JObj kvs) ''env'' = JUndefined \<or> is_env (get_prop (JObj kvs) ''env'')"
    using canonical_env_form(1) by blast
  from keys e1 a show "is_feature f"
    by (simp add: f is_feature_def)
  have ne: "normal_env (get_prop (JObj kvs) ''env'') = get_prop (JObj kvs) ''env''"
    using e canonical_env_form(2) by (auto simp: normal_env_def)
  show "normal_feature f = f"
    by (simp add: f normal_feature_def ne set_prop_get)
qed

lemma passes_features:
  assumes "canonical_features v"
  shows "passes FeaturesStruct v"
proof -
  from assms obtain fs where v: "v = JObj fs" and d: "distinct (map fst fs)"
      and c: "list_all canonical_feature (map snd fs)" and k: "distinct (all_defined_keys fs)"
    by (cases v) (simp_all add: canonical_features_def)
  from c have isf: "list_all is_feature (map snd fs)"
    by (auto simp: list_all_iff canonical_feature_form(1))
  from c have same: "map (\<lambda>(name, f). (name, normal_feature f)) fs = fs"
    by (induction fs) (auto simp: canonical_feature_form(2))
  from k have z: "conflicts [] (all_defined_keys fs) = 0"
    by (simp add: conflicts_zero)
  have "run FeaturesStruct True p (JObj fs) = ([], Some (Valid, JObj fs))" for p
    using feature_definitions_normal [OF isf, of p] run_features_record [OF d isf, of p]
    by (simp add: FeaturesStruct_alt run_refine same z)
  then show ?thesis
    by (simp add: passes_def v)
qed

lemma passes_build_types:
  assumes "canonical_build_types v name"
  shows "passes (record_s string_s BuildTypeStruct) v"
proof -
  from assms obtain bts where v: "v = JObj bts" and d: "distinct (map fst bts)"
      and c: "list_all canonical_build_type (map snd bts)"
    by (cases v) (simp_all add: canonical_build_types_def)
  from c have "\<forall>(k, x) \<in> set bts. passes BuildTypeStruct x"
    by (auto simp: list_all_iff passes_build_type)
  from passes_record [OF this d] v show ?thesis by simp
qed

lemma canonical_default:
  assumes "canonical_build_types v name"
  shows "\<exists>d keys. name = JStr d \<and> object_keys v = Some keys \<and> d \<in> set keys"
proof -
  from assms obtain bts where v: "v = JObj bts" and i: "includes_s (map fst bts) name"
    by (cases v) (simp_all add: canonical_build_types_def)
  from i obtain d where "name = JStr d" and "d \<in> set (map fst bts)"
    by (cases name) (simp_all add: includes_s_def)
  with v show ?thesis
    by (simp add: object_keys_def own_keys_def)
qed

lemma passes_fields_document:
  assumes "canonical_document doc"
  shows "run BuildTypesFields True [] doc = ([], Some (Valid, doc))"
proof -
  from assms obtain kvs where doc: "doc = JObj kvs"
    by (cases doc) (simp_all add: canonical_document_def)
  from assms doc have keys: "set (map fst kvs) \<subseteq> {''default'', ''buildTypes'', ''features'', ''env''}"
    and b: "canonical_build_types (get_prop (JObj kvs) ''buildTypes'') (get_prop (JObj kvs) ''default'')"
    and f: "canonical_features (get_prop (JObj kvs) ''features'')"
    and e: "canonical_env (get_prop (JObj kvs) ''env'')"
    by (simp_all add: canonical_document_def)
  from canonical_default [OF b] have s: "is_string (get_prop (JObj kvs) ''default'')"
    by (auto simp: is_string_def)
  have "passes BuildTypesFields (JObj kvs)"
    unfolding BuildTypesFields_def
    by (rule passes_object)
       (insert keys, simp_all add: passes_string [OF s] passes_build_types [OF b]
          passes_features [OF f] passes_env [OF e])
  then show ?thesis
    by (simp add: doc passes_def)
qed

text \<open>
  A document in canonical form whose features declare no assets validates without failures,
  and the validated document is the document itself.
\<close>

lemma canonical_round_trip_without_assets:
  assumes "canonical_document doc"
  shows "validate doc BuildTypesStruct True = VOk doc"
proof -
  from assms obtain kvs where doc: "doc = JObj kvs"
    by (cases doc) (simp_all add: canonical_document_def)
  from assms doc
  have "canonical_build_types (get_prop doc ''buildTypes'') (get_prop doc ''default'')"
    by (simp add: canonical_document_def)
  from canonical_default [OF this] obtain d keys where d: "get_prop doc ''default'' = JStr d"
      and k: "object_keys (get_prop doc ''buildTypes'') = Some keys" and m: "d \<in> set keys"
    by blast
  from fields_pass_default [OF passes_fields_document [OF assms] d k m] show ?thesis .
qed

section \<open>Canonical documents, on examples\<close>

lemma validate_canonical_example: "validate canonical_example BuildTypesStruct True = VThrew"
  by code_simp

text \<open>
  Claim C8, evaluated. The document \<open>canonical_example\<close> is in canonical form: its entries
  are objects with \<^verbatim>\<open>key\<close> and \<^verbatim>\<open>value\<close>, its assets are in object form, its keys are
  distinct and its default names a build type. Its validation does not return: the
  \<open>assets\<close> of its first feature reach a struct built from \<^verbatim>\<open>undefined\<close>, and loading it
  throws a TypeError and leaves the cache empty.
\<close>

theorem canonical_document_with_assets_throws:
  "validate canonical_example BuildTypesStruct True = VThrew
   \<and> loadBuildTypesConfig (Some canonical_example) initial_process
       = (Inl TypeError, \<lparr>cachedBuildTypes = None, reads = 1, objects = [canonical_example]\<rparr>)"
  by (simp add: validate_canonical_example loadBuildTypesConfig_def allocate_def Let_def
      initial_process_def)

section \<open>Loading\<close>

lemma validate_example_raw:
  "validate (example_builds (JArr [JObj [(''FOO'', JStr ''1'')]])) BuildTypesStruct True
     = VOk (example_builds (JArr [JObj [(''key'', JStr ''FOO''), (''value'', JStr ''1'')]]))"
  by code_simp

lemma validate_null:
  "validate (JNull :: unit jsval) BuildTypesStruct True
     = VError [Failure (Expected ''an object'' JNull) [] None] False"
  by code_simp

lemma load_not_ok:
  assumes "cachedBuildTypes st = None"
    and "\<forall>normalized. validate decoded BuildTypesStruct True \<noteq> VOk normalized"
  shows "(\<exists>e. fst (loadBuildTypesConfig (Some decoded) st) = Inl e)
       \<and> snd (loadBuildTypesConfig (Some decoded) st)
           = st\<lparr>reads := reads st + 1, objects := objects st @ [decoded]\<rparr>"
  using assms
  by (cases "validate decoded BuildTypesStruct True")
     (simp_all add: loadBuildTypesConfig_def allocate_def Let_def)

lemma load_ok:
  assumes "cachedBuildTypes st = None"
    and "validate decoded BuildTypesStruct True = VOk normalized"
  shows "loadBuildTypesConfig (Some decoded) st
       = (Inr (length (objects st)),
          st\<lparr>reads := reads st + 1, objects := objects st @ [decoded, normalized],
             cachedBuildTypes := Some (Suc (length (objects st)))\<rparr>)"
  using assms by (simp add: loadBuildTypesConfig_def allocate_def Let_def)

lemma load_unreadable:
  assumes "cachedBuildTypes st = None"
  shows "loadBuildTypesConfig None st = (Inl ReadError, st\<lparr>reads := reads st + 1\<rparr>)"
  using assms by (simp add: loadBuildTypesConfig_def Let_def)

lemma load_reads:
  assumes "cachedBuildTypes st = None"
  shows "reads (snd (loadBuildTypesConfig source st)) = reads st + 1"
proof (cases source)
  case None
  then show ?thesis by (simp add: load_unreadable [OF assms])
next
  case (Some decoded)
  show ?thesis
  proof (cases "\<exists>normalized. validate decoded BuildTypesStruct True = VOk normalized")
    case True
    then obtain normalized where "validate decoded BuildTypesStruct True = VOk normalized" ..
    from load_ok [OF assms this] Some show ?thesis by simp
  next
    case False
    then have "\<forall>normalized. validate decoded BuildTypesStruct True \<noteq> VOk normalized" by simp
    from load_not_ok [OF assms this] Some show ?thesis by simp
  qed
qed

lemma load_cached:
  assumes "cachedBuildTypes st = None"
    and "cachedBuildTypes (snd (loadBuildTypesConfig source st)) = Some result"
  shows "\<exists>decoded. source = Some decoded
       \<and> validate decoded BuildTypesStruct True = VOk (objects (snd (loadBuildTypesConfig source st)) ! result)"
proof (cases source)
  case None
  with assms show ?thesis by (simp add: load_unreadable)
next
  case (Some decoded)
  show ?thesis
  proof (cases "\<exists>normalized. validate decoded BuildTypesStruct True = VOk normalized")
    case True
    then obtain normalized where v: "validate decoded BuildTypesStruct True = VOk normalized" ..
    from load_ok [OF assms(1) v] Some assms(2) have "result = Suc (length (objects st))"
      by simp
    with load_ok [OF assms(1) v] Some v show ?thesis
      by (simp add: nth_append)
  next
    case False
    then have "\<forall>normalized. validate decoded BuildTypesStruct True \<noteq> VOk normalized" by simp
    from load_not_ok [OF assms(1) this] Some assms show ?thesis by simp
  qed
qed

text \<open>
  Claim C9. When the validation of the decoded document does not succeed, the call throws
  and leaves the cache empty, having read the file once; the next call finds the cache
  empty and reads the file again. The cache is written by a successful validation only:
  whenever a call fills it, the object it holds is the result of validating what that call
  decoded.
\<close>

theorem load_failure_leaves_cache_empty:
  assumes "cachedBuildTypes st = None"
  shows "((\<forall>normalized. validate decoded BuildTypesStruct True \<noteq> VOk normalized) \<longrightarrow>
            (\<exists>e. fst (loadBuildTypesConfig (Some decoded) st) = Inl e)
          \<and> cachedBuildTypes (snd (loadBuildTypesConfig (Some decoded) st)) = None
          \<and> reads (snd (loadBuildTypesConfig (Some decoded) st)) = reads st + 1
          \<and> reads (snd (loadBuildTypesConfig source (snd (loadBuildTypesConfig (Some decoded) st))))
              = reads st + 2)
     \<and> (\<forall>result. cachedBuildTypes (snd (loadBuildTypesConfig source st)) = Some result \<longrightarrow>
           (\<exists>data. source = Some data
              \<and> validate data BuildTypesStruct True
                  = VOk (objects (snd (loadBuildTypesConfig source st)) ! result)))"
proof (intro conjI impI allI)
  assume bad: "\<forall>normalized. validate decoded BuildTypesStruct True \<noteq> VOk normalized"
  note first = load_not_ok [OF assms bad]
  from first show "\<exists>e. fst (loadBuildTypesConfig (Some decoded) st) = Inl e" by simp
  from first assms show c: "cachedBuildTypes (snd (loadBuildTypesConfig (Some decoded) st)) = None"
    by simp
  from first show r: "reads (snd (loadBuildTypesConfig (Some decoded) st)) = reads st + 1"
    by simp
  from load_reads [OF c, of source] r
  show "reads (snd (loadBuildTypesConfig source (snd (loadBuildTypesConfig (Some decoded) st))))
      = reads st + 2"
    by simp
next
  fix result
  assume "cachedBuildTypes (snd (loadBuildTypesConfig source st)) = Some result"
  from load_cached [OF assms this]
  show "\<exists>data. source = Some data
      \<and> validate data BuildTypesStruct True
          = VOk (objects (snd (loadBuildTypesConfig source st)) ! result)" .
qed

theorem load_failure_leaves_cache_empty_witness:
  "cachedBuildTypes initial_process = None
   \<and> (\<forall>normalized. validate (JNull :: unit jsval) BuildTypesStruct True \<noteq> VOk normalized)
   \<and> (\<exists>e. fst (loadBuildTypesConfig (Some JNull) initial_process) = Inl e)
   \<and> cachedBuildTypes (snd (loadBuildTypesConfig (Some JNull) initial_process)) = None
   \<and> reads (snd (loadBuildTypesConfig (Some JNull) (snd (loadBuildTypesConfig (Some JNull) initial_process)))) = 2"
  using load_failure_leaves_cache_empty [of initial_process JNull "Some JNull"]
  by (simp add: validate_null initial_process_def)

text \<open>
  Claim C3, evaluated. The first call returns the decoded document itself,
  \<^verbatim>\<open>buildsData\<close>, the object at address 0, while the cache receives the object that the
  validation built, at address 1, which the second call returns: the two calls return
  different objects, of which only the second is the normalized document as validation
  built it. The file is read once.
\<close>

theorem first_load_returns_raw_document:
  "loadBuildTypesConfig (Some (example_builds (JArr [JObj [(''FOO'', JStr ''1'')]]))) initial_process
     = (Inr 0,
        \<lparr>cachedBuildTypes = Some 1, reads = 1,
         objects = [example_builds (JArr [JObj [(''FOO'', JStr ''1'')]]),
                    example_builds (JArr [JObj [(''key'', JStr ''FOO''), (''value'', JStr ''1'')]])]\<rparr>)
   \<and> loadBuildTypesConfig (Some (example_builds (JArr [JObj [(''FOO'', JStr ''1'')]])))
        (snd (loadBuildTypesConfig (Some (example_builds (JArr [JObj [(''FOO'', JStr ''1'')]]))) initial_process))
     = (Inr 1,
        \<lparr>cachedBuildTypes = Some 1, reads = 1,
         objects = [example_builds (JArr [JObj [(''FOO'', JStr ''1'')]]),
                    example_builds (JArr [JObj [(''key'', JStr ''FOO''), (''value'', JStr ''1'')]])]\<rparr>)
   \<and> fst (loadBuildTypesConfig (Some (example_builds (JArr [JObj [(''FOO'', JStr ''1'')]]))) initial_process)
     \<noteq> fst (loadBuildTypesConfig (Some (example_builds (JArr [JObj [(''FOO'', JStr ''1'')]])))
        (snd (loadBuildTypesConfig (Some (example_builds (JArr [JObj [(''FOO'', JStr ''1'')]]))) initial_process)))"
  by (simp add: loadBuildTypesConfig_def allocate_def Let_def validate_example_raw initial_process_def)

end
